theory Spec2Isabelle
  imports Complex_Main "HOL-Library.Word"
begin

unbundle bit_operations_syntax

section \<open>Strings and bytes\<close>

text \<open>
  A JavaScript string is modelled as a \<^typ>\<open>string\<close>: the list of its UTF-16 code units,
  for strings whose code units are below 256 (the ISO 8859-1 repertoire, which contains
  ASCII). A \<open>Buffer\<close> is a list of bytes.
\<close>

type_synonym byte = "8 word"

text \<open>
  \<open>String.prototype.toUpperCase\<close> on that repertoire: the 26 ASCII letters and the
  accented letters U+00E0..U+00FE (without the division sign U+00F7) move down by 32,
  U+00DF (sharp s) becomes the two letters \<open>SS\<close>. The upper-case forms of U+00B5 and
  U+00FF lie outside the repertoire (U+039C, U+0178); both the originals and their
  images are neither Base32 digits nor white space, so they are kept as they are.
\<close>

definition lower_letters :: string where
  "lower_letters = ''abcdefghijklmnopqrstuvwxyz'' @
     [CHR 0xE0, CHR 0xE1, CHR 0xE2, CHR 0xE3, CHR 0xE4, CHR 0xE5, CHR 0xE6, CHR 0xE7,
      CHR 0xE8, CHR 0xE9, CHR 0xEA, CHR 0xEB, CHR 0xEC, CHR 0xED, CHR 0xEE, CHR 0xEF,
      CHR 0xF0, CHR 0xF1, CHR 0xF2, CHR 0xF3, CHR 0xF4, CHR 0xF5, CHR 0xF6, CHR 0xF8,
      CHR 0xF9, CHR 0xFA, CHR 0xFB, CHR 0xFC, CHR 0xFD, CHR 0xFE]"

definition upper_letters :: string where
  "upper_letters = ''ABCDEFGHIJKLMNOPQRSTUVWXYZ'' @
     [CHR 0xC0, CHR 0xC1, CHR 0xC2, CHR 0xC3, CHR 0xC4, CHR 0xC5, CHR 0xC6, CHR 0xC7,
      CHR 0xC8, CHR 0xC9, CHR 0xCA, CHR 0xCB, CHR 0xCC, CHR 0xCD, CHR 0xCE, CHR 0xCF,
      CHR 0xD0, CHR 0xD1, CHR 0xD2, CHR 0xD3, CHR 0xD4, CHR 0xD5, CHR 0xD6, CHR 0xD8,
      CHR 0xD9, CHR 0xDA, CHR 0xDB, CHR 0xDC, CHR 0xDD, CHR 0xDE]"

definition toUpperCase_char :: "char \<Rightarrow> string" where
  "toUpperCase_char c =
     (if c = CHR 0xDF then ''SS''
      else case map_of (zip lower_letters upper_letters) c of
             Some u \<Rightarrow> [u]
           | None \<Rightarrow> [c])"

definition toUpperCase :: "string \<Rightarrow> string" where
  "toUpperCase s = concat (map toUpperCase_char s)"

text \<open>The regular expression class \<open>\s\<close>: TAB, LF, VT, FF, CR, SPACE and NBSP.\<close>

definition is_space :: "char \<Rightarrow> bool" where
  "is_space c = (c \<in> set [CHR 0x09, CHR 0x0A, CHR 0x0B, CHR 0x0C, CHR 0x0D, CHR 0x20, CHR 0xA0])"

text \<open>\<open>s.replace(/\s/g, '')\<close>\<close>

definition remove_spaces :: "string \<Rightarrow> string" where
  "remove_spaces s = filter (\<lambda>c. \<not> is_space c) s"

text \<open>\<open>s.replace(/=+$/, '')\<close>: the maximal run of \<open>=\<close> at the end of the string is removed.\<close>

definition strip_trailing_eq :: "string \<Rightarrow> string" where
  "strip_trailing_eq s = rev (dropWhile (\<lambda>c. c = CHR ''='') (rev s))"

section \<open>Base32 codec (\<open>base32Decode\<close>, \<open>generateSecret\<close>)\<close>

definition ALPHABET :: string where
  "ALPHABET = ''ABCDEFGHIJKLMNOPQRSTUVWXYZ234567''"

text \<open>\<open>ALPHABET.indexOf(ch)\<close>: the position of the first occurrence, \<open>-1\<close> when there is none.\<close>

fun indexOf_from :: "string \<Rightarrow> char \<Rightarrow> int \<Rightarrow> int" where
  "indexOf_from [] ch i = - 1"
| "indexOf_from (x # xs) ch i = (if x = ch then i else indexOf_from xs ch (i + 1))"

definition indexOf :: "string \<Rightarrow> char \<Rightarrow> int" where
  "indexOf s ch = indexOf_from s ch 0"

text \<open>
  The \<open>for (const ch of s)\<close> loop of \<open>base32Decode\<close>, with its three variables \<open>bits\<close>,
  \<open>value\<close> and \<open>output\<close>. JavaScript's \<open><<\<close>, \<open>|\<close>, \<open>>>>\<close> and \<open>&\<close> work on 32-bit
  integers, so \<open>value\<close> is a \<^typ>\<open>32 word\<close>; bits shifted beyond bit 31 are lost.
\<close>

fun decode_loop :: "string \<Rightarrow> nat \<Rightarrow> 32 word \<Rightarrow> byte list \<Rightarrow> byte list" where
  "decode_loop [] bits val output = output"
| "decode_loop (ch # s) bits val output =
     (let idx = indexOf ALPHABET ch in
      if idx = - 1 then decode_loop s bits val output
      else
        let val' = push_bit 5 val OR word_of_int idx;
            bits' = bits + 5
        in if bits' \<ge> 8
           then decode_loop s (bits' - 8) val'
                  (output @ [ucast (drop_bit (bits' - 8) val' AND 0xff)])
           else decode_loop s bits' val' output)"

definition base32Decode :: "string \<Rightarrow> byte list" where
  "base32Decode str =
     decode_loop (remove_spaces (strip_trailing_eq (toUpperCase str))) 0 0 []"

text \<open>
  \<open>generateSecret\<close> draws \<open>raw = randomBytes(20)\<close> and encodes it. The encoder is modelled
  as a function of \<open>raw\<close>. \<open>emit\<close> is the inner \<open>while (bits >= 5)\<close> loop, \<open>encode_loop\<close>
  the \<open>for (const byte of raw)\<close> loop, \<open>pad8\<close> the final \<open>while\<close> loop that appends \<open>=\<close>.
  The index into \<open>ALPHABET\<close> is masked with \<open>0x1f\<close> and so always below 32.
\<close>

function emit :: "nat \<Rightarrow> 32 word \<Rightarrow> string \<Rightarrow> nat \<times> string" where
  "emit bits val result =
     (if bits \<ge> 5
      then emit (bits - 5) val
             (result @ [ALPHABET ! unat (drop_bit (bits - 5) val AND 0x1f)])
      else (bits, result))"
  by pat_completeness auto
termination
  by (relation "measure (\<lambda>(bits, val, result). bits)") auto

declare emit.simps [simp del]

fun encode_loop :: "byte list \<Rightarrow> nat \<Rightarrow> 32 word \<Rightarrow> string \<Rightarrow> nat \<times> 32 word \<times> string" where
  "encode_loop [] bits val result = (bits, val, result)"
| "encode_loop (b # raw) bits val result =
     (let val' = push_bit 8 val OR ucast b;
          (bits', result') = emit (bits + 8) val' result
      in encode_loop raw bits' val' result')"

function pad8 :: "string \<Rightarrow> string" where
  "pad8 result = (if length result mod 8 \<noteq> 0 then pad8 (result @ ''='') else result)"
  by pat_completeness auto
termination
proof (relation "measure (\<lambda>result. (8 - length result mod 8) mod 8)")
  show "wf (measure (\<lambda>result. (8 - length result mod 8) mod 8))"
    by simp
next
  fix result :: string
  assume a: "length result mod 8 \<noteq> 0"
  define n where "n = length result"
  have b: "n mod 8 < 8" by simp
  have "(8 - Suc n mod 8) mod 8 < (8 - n mod 8) mod 8"
  proof (cases "Suc (n mod 8) = 8")
    case True
    then have "Suc n mod 8 = 0" by (simp add: mod_Suc)
    moreover from True have "n mod 8 = 7" by simp
    ultimately show ?thesis by simp
  next
    case False
    then have "Suc n mod 8 = Suc (n mod 8)" by (simp add: mod_Suc)
    moreover have "Suc (n mod 8) < 8" using False b by linarith
    ultimately show ?thesis using a by (simp add: n_def)
  qed
  then show "(result @ ''='', result) \<in> measure (\<lambda>result. (8 - length result mod 8) mod 8)"
    by (simp add: n_def)
qed

declare pad8.simps [simp del]

definition generateSecret :: "byte list \<Rightarrow> string" where
  "generateSecret raw =
     (let (bits, val, result) = encode_loop raw 0 0 [];
          result' = (if bits > 0
                     then result @ [ALPHABET ! unat (push_bit (5 - bits) val AND 0x1f)]
                     else result)
      in pad8 result')"

section \<open>HMAC-SHA1 (\<open>hmacSha1\<close>)\<close>

text \<open>
  \<open>hmacSha1\<close> calls \<open>createHmac('sha1', key).update(data).digest()\<close> of the Node.js
  runtime. The runtime's function is HMAC (RFC 2104) over SHA-1 (RFC 3174, FIPS 180);
  it is written out here so that codes can be computed. 32-bit words are natural
  numbers below \<open>2 ^ 32\<close>, with the reduction modulo \<open>2 ^ 32\<close> written at each addition
  and rotation; bytes are natural numbers below 256 inside the hash.
\<close>

definition rotl32 :: "nat \<Rightarrow> nat \<Rightarrow> nat" where
  "rotl32 n x = (x * 2 ^ n) mod 4294967296 + x div 2 ^ (32 - n)"

definition not32 :: "nat \<Rightarrow> nat" where
  "not32 x = 4294967295 - x"

text \<open>Big-endian words of a block of bytes, and the four bytes of a word.\<close>

fun be_words :: "nat list \<Rightarrow> nat list" where
  "be_words (a # b # c # d # rest) =
     (a * 16777216 + b * 65536 + c * 256 + d) # be_words rest"
| "be_words _ = []"

definition be32_bytes :: "nat \<Rightarrow> nat list" where
  "be32_bytes x = [x div 16777216 mod 256, x div 65536 mod 256, x div 256 mod 256, x mod 256]"

text \<open>Padding: the byte \<open>0x80\<close>, zeros up to 56 modulo 64, the bit length in 64 bits.\<close>

definition sha1_pad :: "nat list \<Rightarrow> nat list" where
  "sha1_pad msg =
     msg @ [128] @ replicate ((119 - length msg mod 64) mod 64) 0
       @ be32_bytes ((8 * length msg) div 4294967296 mod 4294967296)
       @ be32_bytes ((8 * length msg) mod 4294967296)"

function chunks64 :: "nat list \<Rightarrow> nat list list" where
  "chunks64 xs = (if xs = [] then [] else take 64 xs # chunks64 (drop 64 xs))"
  by pat_completeness auto
termination
  by (relation "measure length") auto

declare chunks64.simps [simp del]

text \<open>The message schedule: \<open>W[t] = ROTL 1 (W[t-3] XOR W[t-8] XOR W[t-14] XOR W[t-16])\<close>.\<close>

definition sha1_extend :: "nat list \<Rightarrow> nat \<Rightarrow> nat list" where
  "sha1_extend ws t =
     ws @ [rotl32 1 (ws ! (t - 3) XOR ws ! (t - 8) XOR ws ! (t - 14) XOR ws ! (t - 16))]"

definition sha1_schedule :: "nat list \<Rightarrow> nat list" where
  "sha1_schedule block = foldl sha1_extend (be_words block) [16..<80]"

definition sha1_f :: "nat \<Rightarrow> nat \<Rightarrow> nat \<Rightarrow> nat \<Rightarrow> nat" where
  "sha1_f t b c d =
     (if t < 20 then (b AND c) OR (not32 b AND d)
      else if t < 40 then b XOR c XOR d
      else if t < 60 then (b AND c) OR (b AND d) OR (c AND d)
      else b XOR c XOR d)"

definition sha1_k :: "nat \<Rightarrow> nat" where
  "sha1_k t =
     (if t < 20 then 0x5A827999
      else if t < 40 then 0x6ED9EBA1
      else if t < 60 then 0x8F1BBCDC
      else 0xCA62C1D6)"

type_synonym sha1_state = "nat \<times> nat \<times> nat \<times> nat \<times> nat"

fun sha1_round :: "nat list \<Rightarrow> sha1_state \<Rightarrow> nat \<Rightarrow> sha1_state" where
  "sha1_round ws (a, b, c, d, e) t =
     ((rotl32 5 a + sha1_f t b c d + e + sha1_k t + ws ! t) mod 4294967296,
      a, rotl32 30 b, c, d)"

fun sha1_add :: "sha1_state \<Rightarrow> sha1_state \<Rightarrow> sha1_state" where
  "sha1_add (h0, h1, h2, h3, h4) (a, b, c, d, e) =
     ((h0 + a) mod 4294967296, (h1 + b) mod 4294967296, (h2 + c) mod 4294967296,
      (h3 + d) mod 4294967296, (h4 + e) mod 4294967296)"

definition sha1_compress :: "sha1_state \<Rightarrow> nat list \<Rightarrow> sha1_state" where
  "sha1_compress h block = sha1_add h (foldl (sha1_round (sha1_schedule block)) h [0..<80])"

definition sha1_init :: sha1_state where
  "sha1_init = (0x67452301, 0xEFCDAB89, 0x98BADCFE, 0x10325476, 0xC3D2E1F0)"

fun sha1_output :: "sha1_state \<Rightarrow> nat list" where
  "sha1_output (h0, h1, h2, h3, h4) =
     be32_bytes h0 @ be32_bytes h1 @ be32_bytes h2 @ be32_bytes h3 @ be32_bytes h4"

definition sha1 :: "nat list \<Rightarrow> nat list" where
  "sha1 msg = sha1_output (foldl sha1_compress sha1_init (chunks64 (sha1_pad msg)))"

text \<open>HMAC with block size 64: a key longer than a block is hashed first.\<close>

definition hmac_key :: "nat list \<Rightarrow> nat list" where
  "hmac_key key =
     (let k = (if length key > 64 then sha1 key else key)
      in k @ replicate (64 - length k) 0)"

definition hmac_sha1 :: "nat list \<Rightarrow> nat list \<Rightarrow> nat list" where
  "hmac_sha1 key msg =
     sha1 (map (\<lambda>b. b XOR 0x5c) (hmac_key key)
           @ sha1 (map (\<lambda>b. b XOR 0x36) (hmac_key key) @ msg))"

definition hmacSha1 :: "byte list \<Rightarrow> byte list \<Rightarrow> byte list" where
  "hmacSha1 keyBuf dataBuf = map of_nat (hmac_sha1 (map unat keyBuf) (map unat dataBuf))"

section \<open>Code engine (\<open>totp\<close>)\<close>

text \<open>
  The loop \<open>for (let i = 7; i >= 0; i--) { counterBuf[i] = c & 0xff; c = Math.floor(c / 256) }\<close>.
  For a non-negative integer \<open>c\<close>, \<open>c & 0xff\<close> is \<open>c mod 256\<close> and \<open>Math.floor(c / 256)\<close>
  is \<open>c div 256\<close>.
\<close>

fun counter_loop :: "nat \<Rightarrow> nat \<Rightarrow> byte list \<Rightarrow> byte list" where
  "counter_loop 0 c counterBuf = counterBuf[0 := of_nat (c mod 256)]"
| "counter_loop (Suc i) c counterBuf =
     counter_loop i (c div 256) (counterBuf[Suc i := of_nat (c mod 256)])"

text \<open>\<open>String(code)\<close> for a non-negative integer, and \<open>s.padStart(n, '0')\<close>.\<close>

definition digit_char :: "nat \<Rightarrow> char" where
  "digit_char d = ''0123456789'' ! d"

function String_of_nat :: "nat \<Rightarrow> string" where
  "String_of_nat n =
     (if n < 10 then [digit_char n] else String_of_nat (n div 10) @ [digit_char (n mod 10)])"
  by pat_completeness auto
termination
  by (relation "measure id") auto

declare String_of_nat.simps [simp del]

definition padStart :: "nat \<Rightarrow> char \<Rightarrow> string \<Rightarrow> string" where
  "padStart n c s = replicate (n - length s) c @ s"

text \<open>
  \<open>totp(secret, epochMs)\<close>. The time is a non-negative integer number of milliseconds, as
  \<open>Date.now()\<close> returns it; \<open>Math.floor(epochMs / 1000 / 30)\<close> is then the integer quotient
  by \<open>1000 * 30\<close> (the rounding of the two floating-point divisions is not modelled).
  The four bytes are combined with 32-bit operations; bit 31 of the result is clear, so
  the signed value that \<open>%\<close> sees is the unsigned one.
\<close>

definition totp :: "string \<Rightarrow> nat \<Rightarrow> string" where
  "totp secret epochMs =
     (let counter = epochMs div (1000 * 30);
          keyBuf = base32Decode (remove_spaces secret);
          counterBuf = counter_loop 7 counter (replicate 8 0);
          hmac = hmacSha1 keyBuf counterBuf;
          offset = unat (hmac ! 19 AND 0x0f);
          code = unat (push_bit 24 (ucast (hmac ! offset AND 0x7f) :: 32 word)
                       OR push_bit 16 (ucast (hmac ! (offset + 1) AND 0xff))
                       OR push_bit 8 (ucast (hmac ! (offset + 2) AND 0xff))
                       OR ucast (hmac ! (offset + 3) AND 0xff))
                 mod 1000000
      in padStart 6 CHR ''0'' (String_of_nat code))"

text \<open>
  The computation as the specification prescribes it (section 4.3, steps 1 to 7), on
  unbounded integers: the counter, its eight big-endian bytes, the key, the digest, the
  offset, the 31-bit value and its six decimal digits.
\<close>

definition spec_counter :: "nat \<Rightarrow> nat" where
  "spec_counter atTimeMillis = atTimeMillis div 1000 div 30"

definition spec_counter_bytes :: "nat \<Rightarrow> byte list" where
  "spec_counter_bytes counter = map (\<lambda>i. of_nat (counter div 256 ^ (7 - i) mod 256)) [0..<8]"

definition spec_value :: "byte list \<Rightarrow> nat" where
  "spec_value digest =
     (let offset = unat (digest ! 19) AND 0x0F
      in push_bit 24 (unat (digest ! offset) AND 0x7F)
         OR push_bit 16 (unat (digest ! (offset + 1)))
         OR push_bit 8 (unat (digest ! (offset + 2)))
         OR unat (digest ! (offset + 3)))"

definition spec_six_digits :: "nat \<Rightarrow> string" where
  "spec_six_digits r = map (\<lambda>i. digit_char (r div 10 ^ (5 - i) mod 10)) [0..<6]"

definition spec_code :: "string \<Rightarrow> nat \<Rightarrow> string" where
  "spec_code secret atTimeMillis =
     (let counter = spec_counter atTimeMillis;
          counterBytes = spec_counter_bytes counter;
          key = base32Decode secret;
          digest = hmacSha1 key counterBytes;
          val = spec_value digest;
          result = val mod 1000000
      in spec_six_digits result)"

section \<open>Receive session (\<open>runReceive\<close>)\<close>

text \<open>
  What \<open>JSON.parse\<close> returns: a JSON value. Numbers are rationals (every finite
  double is one); an object is the list of its members, each key once.
\<close>

datatype json =
    JNull
  | JBool bool
  | JNum rat
  | JStr string
  | JArr "json list"
  | JObj "(string \<times> json) list"

text \<open>
  Reading a property \<open>x.k\<close> of a value that is not \<open>null\<close>, for the names the handler
  reads (\<open>type\<close>, \<open>v\<close>, \<open>vault\<close>, \<open>name\<close>, \<open>entries\<close>, \<open>secret\<close>): an object gives its own
  member, \<open>None\<close> stands for \<open>undefined\<close>. Numbers, booleans and strings have none of
  these properties. On an array \<open>entries\<close> is a method of the prototype; like
  \<open>undefined\<close> it has no \<open>forEach\<close>, and the handler fails on it in the same way.
  Reading a property of \<open>null\<close> or \<open>undefined\<close> throws a \<open>TypeError\<close>; the callers below
  check for that before they call \<open>get_prop\<close>.
\<close>

fun get_prop :: "json \<Rightarrow> string \<Rightarrow> json option" where
  "get_prop (JObj kvs) k = map_of kvs k"
| "get_prop _ k = None"

definition PROTO_VER :: rat where
  "PROTO_VER = 1"

datatype error = TypeError | IOError

text \<open>
  How the process ends: \<open>process.exit(code)\<close>, or an exception that escapes the
  \<open>async\<close> data handler. Such an exception rejects the handler's promise, nothing
  handles the rejection, and Node.js (version 18 or later, as the README requires)
  then terminates the process with exit code 1.
\<close>

datatype outcome = Exit nat | Uncaught error

fun exit_code :: "outcome \<Rightarrow> nat" where
  "exit_code (Exit n) = n"
| "exit_code (Uncaught e) = 1"

text \<open>
  The actions of a session in program order: the assignment \<open>received = true\<close>, the
  \<open>fs.writeFileSync\<close> of a vault (named by \<open>vault.name\<close>, from which the file name is
  computed), the \<open>conn.write\<close> of the \<open>vault_ack\<close> message on a connection, a call of
  \<open>swarm.destroy()\<close> and \<open>process.exit\<close>. Console output is left out.
\<close>

datatype action =
    SetReceived
  | WriteFile string json
  | SendAck nat
  | SwarmDestroy
  | ProcessExit nat

text \<open>
  The state of a session: the variable \<open>received\<close>; whether a data handler is suspended
  in its 500 ms delay; whether the 60 s timer has run; the exit codes of the
  continuations that wait for a \<open>swarm.destroy()\<close> to finish; the actions so far; and
  how the process has ended, if it has.
\<close>

record session =
  received :: bool
  waiting :: bool
  timer_done :: bool
  exit_pending :: "nat list"
  trace :: "action list"
  outcome :: "outcome option"

definition receive_init :: session where
  "receive_init =
     \<lparr>received = False, waiting = False, timer_done = False, exit_pending = [],
      trace = [], outcome = None\<rparr>"

text \<open>
  The events the runtime delivers to a session: a \<open>data\<close> event on a connection, carrying
  what \<open>JSON.parse(raw.toString())\<close> yields (\<open>None\<close> when it throws); the end of the
  500 ms delay the handler awaits after it has acknowledged; the 60 s timer; and the
  completion of a \<open>swarm.destroy()\<close>, upon which the continuation that exits with the
  given code runs. Between the call of \<open>swarm.destroy()\<close> and its completion the handlers
  stay registered, so other events can come in between.
\<close>

datatype event =
    Data nat "json option"
  | GraceElapsed
  | Timeout60
  | Destroyed nat

text \<open>\<open>msg.type !== 'vault_share' || msg.v !== PROTO_VER\<close> is false.\<close>

definition is_share_msg :: "json \<Rightarrow> bool" where
  "is_share_msg msg =
     (get_prop msg ''type'' = Some (JStr ''vault_share'') \<and> get_prop msg ''v'' = Some (JNum PROTO_VER))"

text \<open>
  \<open>totp(e.secret)\<close> inside \<open>vault.entries.forEach\<close> returns only when \<open>e.secret\<close> is a
  string: it calls \<open>secret.replace\<close>. Otherwise (also when \<open>e\<close> is \<open>null\<close>) a \<open>TypeError\<close>
  is thrown.
\<close>

definition secret_is_string :: "json \<Rightarrow> bool" where
  "secret_is_string e = (case get_prop e ''secret'' of Some (JStr s) \<Rightarrow> True | _ \<Rightarrow> False)"

text \<open>
  The handler from \<open>const vault = msg.vault\<close> to \<open>fs.writeFileSync\<close>: printing the vault
  needs \<open>vault\<close> not to be \<open>null\<close> or \<open>undefined\<close>, \<open>vault.entries\<close> to be an array whose
  entries all have a string \<open>secret\<close>, and \<open>vault.name\<close> to be a string. The file written
  is \<open>path.join(process.cwd(), vault.name.replace(/\s+/g, '_').toLowerCase() + '.peerotp')\<close>;
  the file system decides what \<open>writeFileSync\<close> does with it, so \<open>fs_write name\<close> is the
  error it throws for the vault name \<open>name\<close>, or \<open>None\<close> when it returns. The result is the
  name and the vault whose serialisation is written.
\<close>

definition save_vault ::
  "(string \<Rightarrow> error option) \<Rightarrow> json option \<Rightarrow> error + (string \<times> json)" where
  "save_vault fs_write v =
     (case v of
        None \<Rightarrow> Inl TypeError
      | Some JNull \<Rightarrow> Inl TypeError
      | Some vault \<Rightarrow>
          (case get_prop vault ''entries'' of
             Some (JArr es) \<Rightarrow>
               if \<not> list_all secret_is_string es then Inl TypeError
               else (case get_prop vault ''name'' of
                       Some (JStr name) \<Rightarrow>
                         (case fs_write name of
                            None \<Rightarrow> Inr (name, vault)
                          | Some e \<Rightarrow> Inl e)
                     | _ \<Rightarrow> Inl TypeError)
           | _ \<Rightarrow> Inl TypeError))"

text \<open>
  The \<open>data\<close> handler up to its first \<open>await\<close>. It runs without interruption: the
  runtime is single-threaded. The write of the acknowledgement is inside
  \<open>try \<dots> catch\<close>, so it cannot fail the handler.
\<close>

definition on_data ::
  "(string \<Rightarrow> error option) \<Rightarrow> session \<Rightarrow> nat \<Rightarrow> json option \<Rightarrow> session" where
  "on_data fs_write s conn raw =
     (if received s then s
      else case raw of
        None \<Rightarrow> s
      | Some JNull \<Rightarrow> s\<lparr>outcome := Some (Uncaught TypeError)\<rparr>
      | Some msg \<Rightarrow>
          if \<not> is_share_msg msg then s
          else
            let s1 = s\<lparr>received := True, trace := trace s @ [SetReceived]\<rparr>
            in (case save_vault fs_write (get_prop msg ''vault'') of
                  Inl e \<Rightarrow> s1\<lparr>outcome := Some (Uncaught e)\<rparr>
                | Inr (name, vault) \<Rightarrow>
                    s1\<lparr>trace := trace s1 @ [WriteFile name vault, SendAck conn],
                       waiting := True\<rparr>))"

text \<open>
  The rest of the handler, after the delay: \<open>await swarm.destroy(); process.exit(0)\<close>.
  The handler calls \<open>swarm.destroy()\<close> and is suspended again until it has finished.
\<close>

definition on_grace :: "session \<Rightarrow> session" where
  "on_grace s =
     (if waiting s
      then s\<lparr>waiting := False, trace := trace s @ [SwarmDestroy],
             exit_pending := exit_pending s @ [0]\<rparr>
      else s)"

text \<open>
  The timer callback, which runs once:
  \<open>if (!received) { \<dots> swarm.destroy().then(() => process.exit(1)) }\<close>. It reads
  \<open>received\<close> when the timer fires; the exit waits for \<open>swarm.destroy()\<close> and does not read
  \<open>received\<close> again.
\<close>

definition on_timeout :: "session \<Rightarrow> session" where
  "on_timeout s =
     (if timer_done s then s
      else if \<not> received s
      then s\<lparr>timer_done := True, trace := trace s @ [SwarmDestroy],
             exit_pending := exit_pending s @ [1]\<rparr>
      else s\<lparr>timer_done := True\<rparr>)"

text \<open>A \<open>swarm.destroy()\<close> has finished and the continuation with exit code \<open>c\<close> runs.\<close>

definition on_destroyed :: "session \<Rightarrow> nat \<Rightarrow> session" where
  "on_destroyed s c =
     (if c \<in> set (exit_pending s)
      then s\<lparr>trace := trace s @ [ProcessExit c], outcome := Some (Exit c)\<rparr>
      else s)"

text \<open>One event; a process that has ended reacts to nothing.\<close>

definition step :: "(string \<Rightarrow> error option) \<Rightarrow> session \<Rightarrow> event \<Rightarrow> session" where
  "step fs_write s ev =
     (if outcome s \<noteq> None then s
      else case ev of
        Data conn raw \<Rightarrow> on_data fs_write s conn raw
      | GraceElapsed \<Rightarrow> on_grace s
      | Timeout60 \<Rightarrow> on_timeout s
      | Destroyed c \<Rightarrow> on_destroyed s c)"

definition run :: "(string \<Rightarrow> error option) \<Rightarrow> event list \<Rightarrow> session \<Rightarrow> session" where
  "run fs_write evs s = foldl (step fs_write) s evs"

fun is_write :: "action \<Rightarrow> bool" where
  "is_write (WriteFile f v) = True"
| "is_write _ = False"

fun is_io :: "action \<Rightarrow> bool" where
  "is_io (WriteFile f v) = True"
| "is_io (SendAck c) = True"
| "is_io _ = False"

definition is_share :: "json option \<Rightarrow> bool" where
  "is_share raw = (case raw of None \<Rightarrow> False | Some msg \<Rightarrow> is_share_msg msg)"

text \<open>The vault of the README and the message a share session sends for it.\<close>

definition example_vault :: json where
  "example_vault =
     JObj [(''name'', JStr ''myteam''),
           (''created'', JStr ''2026-02-19T09:00:00.000Z''),
           (''entries'', JArr [
              JObj [(''label'', JStr ''AWS Root''), (''issuer'', JStr ''Amazon''),
                    (''secret'', JStr ''JBSWY3DPEHPK3PXP'')],
              JObj [(''label'', JStr ''GitHub Org''), (''issuer'', JStr ''GitHub''),
                    (''secret'', JStr ''MFRA2YLBMFRA2YLB'')]])]"

definition example_share :: json where
  "example_share =
     JObj [(''v'', JNum 1), (''type'', JStr ''vault_share''),
           (''vault'', example_vault), (''ts'', JNum 1718000000000)]"

text \<open>A message with the right \<open>type\<close> and \<open>v\<close> and no vault.\<close>

definition vaultless_share :: json where
  "vaultless_share = JObj [(''v'', JNum 1), (''type'', JStr ''vault_share'')]"

section \<open>Auxiliary notions for the proofs\<close>

text \<open>
  The number that a string of Base32 digits, or a list of bytes, denotes when it is read
  big-endian after a number \<open>n\<close> already read; and the low \<open>bits\<close> bits of \<open>value\<close>, which are
  the bits a codec loop has read and not yet written.
\<close>

definition b32_digit :: "char \<Rightarrow> nat" where
  "b32_digit c = nat (indexOf ALPHABET c)"

definition b32_acc :: "nat \<Rightarrow> string \<Rightarrow> nat" where
  "b32_acc n cs = foldl (\<lambda>n c. n * 32 + b32_digit c) n cs"

definition be_acc :: "nat \<Rightarrow> byte list \<Rightarrow> nat" where
  "be_acc n bs = foldl (\<lambda>n b. n * 256 + unat b) n bs"

definition pending :: "nat \<Rightarrow> 32 word \<Rightarrow> nat" where
  "pending bits val = take_bit bits (unat val)"

section \<open>Properties of the Base32 decoder\<close>

subsection \<open>The decoder skips what is not in the alphabet\<close>

lemma indexOf_from_ge: "indexOf_from xs ch i \<noteq> - 1 \<Longrightarrow> 0 \<le> i \<Longrightarrow> i \<le> indexOf_from xs ch i"
proof (induction xs arbitrary: i)
  case Nil
  then show ?case by simp
next
  case (Cons x xs)
  show ?case
  proof (cases "x = ch")
    case True
    then show ?thesis by simp
  next
    case False
    with Cons.prems have "indexOf_from xs ch (i + 1) \<noteq> - 1" by simp
    with Cons.IH [of "i + 1"] Cons.prems have "i + 1 \<le> indexOf_from xs ch (i + 1)" by simp
    with False show ?thesis by simp
  qed
qed

lemma indexOf_from_absent: "0 \<le> i \<Longrightarrow> indexOf_from xs ch i = - 1 \<longleftrightarrow> ch \<notin> set xs"
proof (induction xs arbitrary: i)
  case Nil
  then show ?case by simp
next
  case (Cons x xs)
  then show ?case by (auto)
qed

lemma indexOf_absent: "indexOf s ch = - 1 \<longleftrightarrow> ch \<notin> set s"
  by (simp add: indexOf_def indexOf_from_absent)

lemma decode_loop_filter:
  "decode_loop (filter (\<lambda>c. c \<in> set ALPHABET) s) bits val out = decode_loop s bits val out"
  by (induction s arbitrary: bits val out) (simp_all add: Let_def indexOf_absent)

lemma filter_dropWhile_disjoint:
  "(\<And>x. Q x \<Longrightarrow> \<not> P x) \<Longrightarrow> filter P (dropWhile Q xs) = filter P xs"
  by (induction xs) auto

lemma eq_not_in_ALPHABET: "CHR ''='' \<notin> set ALPHABET"
  by (simp add: ALPHABET_def)

lemma space_not_in_ALPHABET: "is_space c \<Longrightarrow> c \<notin> set ALPHABET"
  by (auto simp: is_space_def ALPHABET_def)

lemma filter_ALPHABET_strip:
  "filter (\<lambda>c. c \<in> set ALPHABET) (strip_trailing_eq u) = filter (\<lambda>c. c \<in> set ALPHABET) u"
proof -
  have "filter (\<lambda>c. c \<in> set ALPHABET) (dropWhile (\<lambda>c. c = CHR ''='') (rev u))
      = filter (\<lambda>c. c \<in> set ALPHABET) (rev u)"
    by (rule filter_dropWhile_disjoint) (simp add: eq_not_in_ALPHABET)
  then show ?thesis
    by (simp add: strip_trailing_eq_def rev_filter [symmetric])
qed

lemma filter_ALPHABET_remove_spaces:
  "filter (\<lambda>c. c \<in> set ALPHABET) (remove_spaces u) = filter (\<lambda>c. c \<in> set ALPHABET) u"
  unfolding remove_spaces_def filter_filter
  by (rule filter_cong) (auto dest: space_not_in_ALPHABET)

lemma base32Decode_filter:
  "base32Decode str = decode_loop (filter (\<lambda>c. c \<in> set ALPHABET) (toUpperCase str)) 0 0 []"
proof -
  have "base32Decode str
      = decode_loop (filter (\<lambda>c. c \<in> set ALPHABET)
          (remove_spaces (strip_trailing_eq (toUpperCase str)))) 0 0 []"
    by (simp add: base32Decode_def decode_loop_filter)
  then show ?thesis
    by (simp add: filter_ALPHABET_remove_spaces filter_ALPHABET_strip)
qed

lemma toUpperCase_char_space: "is_space c \<Longrightarrow> toUpperCase_char c = [c]"
proof -
  assume "is_space c"
  then consider "c = CHR 0x09" | "c = CHR 0x0A" | "c = CHR 0x0B" | "c = CHR 0x0C"
    | "c = CHR 0x0D" | "c = CHR 0x20" | "c = CHR 0xA0"
    by (auto simp: is_space_def)
  then show ?thesis
    by cases (simp_all add: toUpperCase_char_def lower_letters_def upper_letters_def)
qed

lemma filter_ALPHABET_upper_remove_spaces:
  "filter (\<lambda>c. c \<in> set ALPHABET) (toUpperCase (remove_spaces s))
   = filter (\<lambda>c. c \<in> set ALPHABET) (toUpperCase s)"
proof (induction s)
  case Nil
  then show ?case by (simp add: remove_spaces_def)
next
  case (Cons c s)
  then show ?case
    by (cases "is_space c")
       (simp_all add: toUpperCase_def remove_spaces_def toUpperCase_char_space space_not_in_ALPHABET)
qed

lemma base32Decode_remove_spaces: "base32Decode (remove_spaces s) = base32Decode s"
  by (simp add: base32Decode_filter filter_ALPHABET_upper_remove_spaces)

section \<open>Properties of the code engine\<close>

subsection \<open>Counter bytes\<close>

lemma counter_loop_7:
  "counter_loop 7 c (replicate 8 0) = spec_counter_bytes c"
proof -
  have seven: "(7::nat) = Suc (Suc (Suc (Suc (Suc (Suc (Suc 0))))))" by simp
  have eight: "replicate 8 (0::byte) = [0, 0, 0, 0, 0, 0, 0, 0]"
    by (simp add: numeral_eq_Suc)
  have upt8: "[0..<8] = [0, 1, 2, 3, 4, 5, 6, 7::nat]"
    by (simp add: upt_conv_Cons)
  show ?thesis
    unfolding spec_counter_bytes_def upt8 eight
    by (subst seven) (simp add: div_mult2_eq [symmetric])
qed

lemma counter_split: "t div (1000 * 30) = spec_counter t"
  by (simp add: spec_counter_def div_mult2_eq)

subsection \<open>The digest has 20 bytes\<close>

lemma length_be32_bytes: "length (be32_bytes x) = 4"
  by (simp add: be32_bytes_def)

lemma length_sha1: "length (sha1 msg) = 20"
  unfolding sha1_def
  by (cases "foldl sha1_compress sha1_init (chunks64 (sha1_pad msg))")
     (simp add: length_be32_bytes)

lemma length_hmacSha1: "length (hmacSha1 k d) = 20"
  by (simp add: hmacSha1_def hmac_sha1_def length_sha1)

subsection \<open>The 31-bit value\<close>

lemma unat_byte_lt: "unat (b :: byte) < 256"
  using unsigned_less [of b, where ?'a = nat] by simp

lemma nat_and_ff: "x < 256 \<Longrightarrow> x AND (0xff :: nat) = x"
proof -
  assume a: "x < 256"
  have "(0xff :: nat) = mask 8" by (simp add: mask_eq_exp_minus_1)
  then have "x AND (0xff :: nat) = take_bit 8 x" by (simp add: take_bit_eq_mask)
  also have "\<dots> = x" using a by (simp add: take_bit_nat_eq_self)
  finally show ?thesis .
qed

lemma nat_and_0f: "x AND (0x0f :: nat) = x mod 16"
proof -
  have "(0x0f :: nat) = mask 4" by (simp add: mask_eq_exp_minus_1)
  then have "x AND (0x0f :: nat) = take_bit 4 x" by (simp add: take_bit_eq_mask)
  then show ?thesis by (simp add: take_bit_eq_mod)
qed

lemma nat_and_7f: "x AND (0x7f :: nat) = x mod 128"
proof -
  have "(0x7f :: nat) = mask 7" by (simp add: mask_eq_exp_minus_1)
  then have "x AND (0x7f :: nat) = take_bit 7 x" by (simp add: take_bit_eq_mask)
  then show ?thesis by (simp add: take_bit_eq_mod)
qed

lemma unat_ucast_byte: "unat (ucast (b :: byte) :: 32 word) = unat b"
proof -
  have "unat b < 2 ^ 32" using unat_byte_lt [of b] by simp
  then show ?thesis by (simp add: unsigned_ucast_eq take_bit_nat_eq_self)
qed

lemma unat_byte_and_ff: "unat ((b :: byte) AND 0xff) = unat b"
  using nat_and_ff [OF unat_byte_lt [of b]] by (simp add: unsigned_and_eq)

lemma unat_byte_and_7f: "unat ((b :: byte) AND 0x7f) = unat b mod 128"
  by (simp add: unsigned_and_eq nat_and_7f)

lemma unat_byte_and_0f: "unat ((b :: byte) AND 0x0f) = unat b mod 16"
  by (simp add: unsigned_and_eq nat_and_0f)

lemma code_word_nat:
  "unat (push_bit 24 (ucast (a AND 0x7f) :: 32 word) OR push_bit 16 (ucast (b AND 0xff))
         OR push_bit 8 (ucast (c AND 0xff)) OR ucast (d AND 0xff))
   = (push_bit 24 (unat a AND 0x7F) OR push_bit 16 (unat b) OR push_bit 8 (unat c) OR unat d)"
  for a b c d :: byte
proof -
  have a: "push_bit 24 (unat a mod 128) < (2 :: nat) ^ 32"
  proof -
    have "unat a mod 128 < 128" by simp
    then have "unat a mod 128 * 2 ^ 24 < 128 * (2 :: nat) ^ 24"
      by (rule mult_strict_right_mono) simp
    then show ?thesis by (simp add: push_bit_eq_mult)
  qed
  have b: "push_bit 16 (unat b) < (2 :: nat) ^ 32"
    using unat_byte_lt [of b] by (simp add: push_bit_eq_mult)
  have c: "push_bit 8 (unat c) < (2 :: nat) ^ 32"
    using unat_byte_lt [of c] by (simp add: push_bit_eq_mult)
  show ?thesis
    using a b c
    by (simp add: unsigned_or_eq unsigned_push_bit_eq unat_ucast_byte unat_byte_and_ff
        unat_byte_and_7f nat_and_7f take_bit_nat_eq_self)
qed

subsection \<open>Six digits\<close>

lemma padStart_String_of_nat:
  "n < 10 ^ Suc k \<Longrightarrow>
   padStart (Suc k) CHR ''0'' (String_of_nat n)
   = map (\<lambda>i. digit_char (n div 10 ^ (k - i) mod 10)) [0..<Suc k]"
proof (induction k arbitrary: n)
  case 0
  then show ?case by (simp add: String_of_nat.simps [of n] padStart_def)
next
  case (Suc k)
  show ?case
  proof (cases "n < 10")
    case True
    have zero: "n div 10 ^ (Suc k - i) mod 10 = 0" if "i < Suc k" for i
    proof -
      have "(10::nat) ^ 1 \<le> 10 ^ (Suc k - i)"
        using that by (intro power_increasing) simp_all
      with True have "n < 10 ^ (Suc k - i)" by simp
      then show ?thesis by simp
    qed
    have "map (\<lambda>i. digit_char (n div 10 ^ (Suc k - i) mod 10)) [0..<Suc k]
        = map (\<lambda>i. digit_char 0) [0..<Suc k]"
    proof (rule map_cong [OF refl])
      fix i assume "i \<in> set [0..<Suc k]"
      then have "i < Suc k" by auto
      from zero [OF this]
      show "digit_char (n div 10 ^ (Suc k - i) mod 10) = digit_char 0"
        by (simp only:)
    qed
    also have "\<dots> = replicate (Suc k) (digit_char 0)"
      by (simp only: map_replicate_const length_upt diff_zero)
    finally have front: "map (\<lambda>i. digit_char (n div 10 ^ (Suc k - i) mod 10)) [0..<Suc k]
        = replicate (Suc k) CHR ''0''"
      by (simp add: digit_char_def)
    have "padStart (Suc (Suc k)) CHR ''0'' (String_of_nat n)
        = replicate (Suc k) CHR ''0'' @ [digit_char n]"
      using True by (simp add: String_of_nat.simps [of n] padStart_def)
    also have "\<dots> = map (\<lambda>i. digit_char (n div 10 ^ (Suc k - i) mod 10)) [0..<Suc (Suc k)]"
      using True front by (simp del: replicate_Suc)
    finally show ?thesis .
  next
    case False
    from Suc.prems have small: "n div 10 < 10 ^ Suc k"
      by (simp add: less_mult_imp_div_less mult.commute)
    have len: "length (String_of_nat (n div 10)) \<le> Suc k"
    proof -
      have "length (padStart (Suc k) CHR ''0'' (String_of_nat (n div 10))) = Suc k"
        by (simp add: Suc.IH [OF small])
      then show ?thesis by (simp add: padStart_def)
    qed
    have digits: "n div 10 div 10 ^ (k - i) mod 10 = n div 10 ^ (Suc k - i) mod 10"
      if "i < Suc k" for i
    proof -
      from that have "Suc k - i = Suc (k - i)" by simp
      then show ?thesis by (simp add: div_mult2_eq)
    qed
    have "padStart (Suc (Suc k)) CHR ''0'' (String_of_nat n)
        = padStart (Suc k) CHR ''0'' (String_of_nat (n div 10)) @ [digit_char (n mod 10)]"
      using False len by (simp add: String_of_nat.simps [of n] padStart_def Suc_diff_le)
    also have "\<dots> = map (\<lambda>i. digit_char (n div 10 div 10 ^ (k - i) mod 10)) [0..<Suc k]
        @ [digit_char (n mod 10)]"
      by (simp only: Suc.IH [OF small])
    also have "map (\<lambda>i. digit_char (n div 10 div 10 ^ (k - i) mod 10)) [0..<Suc k]
        = map (\<lambda>i. digit_char (n div 10 ^ (Suc k - i) mod 10)) [0..<Suc k]"
    proof (rule map_cong [OF refl])
      fix i assume "i \<in> set [0..<Suc k]"
      then have "i < Suc k" by auto
      from digits [OF this]
      show "digit_char (n div 10 div 10 ^ (k - i) mod 10)
          = digit_char (n div 10 ^ (Suc k - i) mod 10)"
        by (simp only:)
    qed
    finally show ?thesis by simp
  qed
qed

lemma padStart_six: "n < 1000000 \<Longrightarrow> padStart 6 CHR ''0'' (String_of_nat n) = spec_six_digits n"
proof -
  assume "n < 1000000"
  then have "n < 10 ^ Suc 5" by simp
  from padStart_String_of_nat [OF this] show ?thesis
    by (simp add: spec_six_digits_def)
qed

subsection \<open>The code engine computes the prescribed function\<close>

lemma totp_spec_code: "totp secret t = spec_code secret t"
proof -
  define digest where
    "digest = hmacSha1 (base32Decode secret) (spec_counter_bytes (spec_counter t))"
  have off: "unat (digest ! 19 AND 0x0f) = unat (digest ! 19) AND 0x0F"
    by (simp add: unsigned_and_eq)
  show ?thesis
    unfolding totp_def spec_code_def Let_def spec_value_def
      base32Decode_remove_spaces counter_split counter_loop_7
      digest_def [symmetric] off code_word_nat
    by (rule padStart_six) simp
qed

subsection \<open>Refinement\<close>

text \<open>
  Claim C1. For every secret string and every time in milliseconds, \<open>totp\<close> returns what
  the prescribed computation returns: the counter \<open>floor(t / 1000 / 30)\<close>, its eight
  big-endian bytes, the Base32-decoded key, the HMAC-SHA1 digest, the offset from the low
  nibble of byte 19, the 31-bit value at the offset, and that value modulo 1000000 as
  six digits.
\<close>

theorem totp_refines_spec: "totp secret t = spec_code secret t"
  by (rule totp_spec_code)

subsection \<open>Totality of the decoder and of the code engine\<close>

lemma toUpperCase_append: "toUpperCase (xs @ ys) = toUpperCase xs @ toUpperCase ys"
  by (simp add: toUpperCase_def)

lemma base32Decode_skip:
  assumes "set (toUpperCase_char c) \<inter> set ALPHABET = {}"
  shows "base32Decode (xs @ c # ys) = base32Decode (xs @ ys)"
proof -
  have "filter (\<lambda>c. c \<in> set ALPHABET) (toUpperCase_char c) = []"
    using assms by (auto simp: filter_empty_conv)
  then show ?thesis
    by (simp add: base32Decode_filter toUpperCase_def)
qed

lemma base32Decode_invalid:
  assumes "\<forall>c \<in> set (toUpperCase s). c \<notin> set ALPHABET"
  shows "base32Decode s = []"
proof -
  have "filter (\<lambda>c. c \<in> set ALPHABET) (toUpperCase s) = []"
    using assms by (auto simp: filter_empty_conv)
  then show ?thesis by (simp add: base32Decode_filter)
qed

lemma base32Decode_empty: "base32Decode [] = []"
  by (simp add: base32Decode_filter toUpperCase_def)

lemma digit_char_digit: "d < 10 \<Longrightarrow> digit_char d \<in> set ''0123456789''"
  unfolding digit_char_def by (rule nth_mem) simp

lemma spec_six_digits_shape:
  "length (spec_six_digits r) = 6 \<and> (\<forall>c \<in> set (spec_six_digits r). c \<in> set ''0123456789'')"
proof -
  have "digit_char (r div 10 ^ (5 - i) mod 10) \<in> set ''0123456789''" for i
    by (rule digit_char_digit) simp
  then show ?thesis unfolding spec_six_digits_def by auto
qed

lemma totp_shape:
  "length (totp s t) = 6 \<and> (\<forall>c \<in> set (totp s t). c \<in> set ''0123456789'')"
  unfolding totp_spec_code spec_code_def Let_def by (rule spec_six_digits_shape)

lemma totp_key_only: "base32Decode s = base32Decode s' \<Longrightarrow> totp s t = totp s' t"
  by (simp add: totp_spec_code spec_code_def)

lemma digest_reads_in_range:
  "19 < length (hmacSha1 k d)
   \<and> unat (hmacSha1 k d ! 19 AND 0x0f) + 3 < length (hmacSha1 k d)"
proof -
  have "unat (hmacSha1 k d ! 19 AND 0x0f) < 16"
    by (simp add: unat_byte_and_0f)
  then show ?thesis by (simp add: length_hmacSha1)
qed

text \<open>
  Claim C4. \<open>base32Decode\<close> and \<open>totp\<close> are functions of every string: no operation in
  them can throw, and the model has no error result. The empty string and every string
  without a Base32 digit (after upper-casing) decode to no bytes; a character whose
  upper-case form has no Base32 digit can be dropped anywhere without changing the
  result; \<open>totp\<close> returns six decimal digits for every secret and time, and the code of
  the empty key when the secret decodes to no bytes; the digest is 20 bytes long, so the
  reads at index 19 and at \<open>offset \<dots> offset + 3\<close> are inside it.
\<close>

theorem decoder_and_engine_total:
  "base32Decode '''' = []
   \<and> ((\<forall>c \<in> set (toUpperCase s). c \<notin> set ALPHABET) \<longrightarrow> base32Decode s = [])
   \<and> (set (toUpperCase_char c) \<inter> set ALPHABET = {} \<longrightarrow>
        base32Decode (xs @ c # ys) = base32Decode (xs @ ys))
   \<and> length (totp s t) = 6
   \<and> (\<forall>c \<in> set (totp s t). c \<in> set ''0123456789'')
   \<and> (base32Decode s = [] \<longrightarrow> totp s t = totp '''' t)
   \<and> 19 < length (hmacSha1 k d)
   \<and> unat (hmacSha1 k d ! 19 AND 0x0f) + 3 < length (hmacSha1 k d)"
  using base32Decode_empty base32Decode_invalid [of s] base32Decode_skip [of c xs ys]
    totp_shape [of s t] totp_key_only [of s "''''" t] digest_reads_in_range [of k d]
  by simp

theorem decoder_and_engine_total_witness:
  "list_all (\<lambda>c. c \<notin> set ALPHABET) (toUpperCase ''=1 !'')
   \<and> base32Decode ''=1 !'' = []
   \<and> set (toUpperCase_char CHR ''-'') \<inter> set ALPHABET = {}
   \<and> base32Decode (''jbsw'' @ CHR ''-'' # ''y3dp'') = base32Decode (''jbsw'' @ ''y3dp'')
   \<and> list_all (\<lambda>c. c \<in> set ''0123456789'') (totp ''=1 !'' 0)
   \<and> totp ''=1 !'' 0 = totp '''' 0"
  using decoder_and_engine_total [of "''=1 !''" "CHR ''-''" "''jbsw''" "''y3dp''" 0]
  by (simp add: list_all_iff toUpperCase_def toUpperCase_char_def lower_letters_def
      upper_letters_def ALPHABET_def)

subsection \<open>Windows\<close>

lemma last_spec_counter_bytes: "last (spec_counter_bytes c) = of_nat (c mod 256)"
  by (simp add: spec_counter_bytes_def upt_conv_Cons)

lemma byte_of_nat_inj: "a < 256 \<Longrightarrow> b < 256 \<Longrightarrow> (of_nat a :: byte) = of_nat b \<Longrightarrow> a = b"
  by (simp add: word_of_nat_eq_iff take_bit_nat_eq_self)

lemma counter_bytes_change: "spec_counter_bytes c \<noteq> spec_counter_bytes (c + 1)"
proof
  assume "spec_counter_bytes c = spec_counter_bytes (c + 1)"
  then have "last (spec_counter_bytes c) = last (spec_counter_bytes (c + 1))" by simp
  then have "(of_nat (c mod 256) :: byte) = of_nat ((c + 1) mod 256)"
    by (simp only: last_spec_counter_bytes)
  then have "c mod 256 = (c + 1) mod 256"
    by (intro byte_of_nat_inj) simp_all
  then show False by (simp add: mod_Suc split: if_splits)
qed

lemma totp_window: "t1 div 30000 = t2 div 30000 \<Longrightarrow> totp s t1 = totp s t2"
  by (simp add: totp_def)

text \<open>
  Claim C8, amended. Two times in the same 30-second window give the same code for every
  secret. From one window to the next the eight counter bytes that are hashed change; the
  six-digit code may stay the same (the secret of the README does so on 2 November 2024).
\<close>

theorem same_window_same_code:
  "(t1 div 30000 = t2 div 30000 \<longrightarrow> totp s t1 = totp s t2)
   \<and> counter_loop 7 (t div 30000) (replicate 8 0)
       \<noteq> counter_loop 7 (t div 30000 + 1) (replicate 8 0)"
  using totp_window [of t1 t2 s] counter_bytes_change [of "t div 30000"]
  by (simp only: counter_loop_7) simp

theorem same_window_same_code_witness:
  "(1730505720000 :: nat) div 30000 = 1730505749999 div 30000
   \<and> totp ''JBSWY3DPEHPK3PXP'' 1730505720000 = totp ''JBSWY3DPEHPK3PXP'' 1730505749999"
  using same_window_same_code [of 1730505720000 1730505749999 "''JBSWY3DPEHPK3PXP''"]
  by simp

subsection \<open>Two adjacent windows with one code\<close>

text \<open>
  The secret of the README's first entry, evaluated at the last millisecond of one
  window and the first of the next (2 November 2024, 00:02:30 UTC): the digest is computed
  block by block.
\<close>

lemma replicate_numeral_Cons: "replicate (numeral v) x = x # replicate (numeral v - 1) x"
proof -
  have "numeral v = Suc (numeral v - 1)" by simp
  then have "replicate (numeral v) x = replicate (Suc (numeral v - 1)) x" by (simp only:)
  then show ?thesis by (simp only: replicate_Suc)
qed

lemmas sha1_eval = sha1_compress_def sha1_schedule_def sha1_extend_def sha1_f_def sha1_k_def
  rotl32_def not32_def upt_conv_Cons

lemma demo_key: "base32Decode ''JBSWY3DPEHPK3PXP'' = [72, 101, 108, 108, 111, 33, 222, 173, 190, 239]"
  by (simp add: base32Decode_def toUpperCase_def toUpperCase_char_def lower_letters_def
      upper_letters_def strip_trailing_eq_def remove_spaces_def is_space_def indexOf_def
      ALPHABET_def Let_def)

lemma demo_hmac_key: "hmac_key [72, 101, 108, 108, 111, 33, 222, 173, 190, 239] = [72, 101, 108, 108, 111, 33, 222, 173, 190, 239, 0, 0, 0, 0, 0, 0, 0, 0, 0, 0, 0, 0, 0, 0, 0, 0, 0, 0, 0, 0, 0, 0, 0, 0, 0, 0, 0, 0, 0, 0, 0, 0, 0, 0, 0, 0, 0, 0, 0, 0, 0, 0, 0, 0, 0, 0, 0, 0, 0, 0, 0, 0, 0, 0]"
  by (simp add: hmac_key_def replicate_numeral_Cons)

lemma demo_ipad: "sha1_compress sha1_init [126, 83, 90, 90, 89, 23, 232, 155, 136, 217, 54, 54, 54, 54, 54, 54, 54, 54, 54, 54, 54, 54, 54, 54, 54, 54, 54, 54, 54, 54, 54, 54, 54, 54, 54, 54, 54, 54, 54, 54, 54, 54, 54, 54, 54, 54, 54, 54, 54, 54, 54, 54, 54, 54, 54, 54, 54, 54, 54, 54, 54, 54, 54, 54] = (3715725260, 1380640354, 3878100862, 144215461, 2792695825)"
  by (simp add: sha1_eval sha1_init_def)

lemma demo_opad: "sha1_compress sha1_init [20, 57, 48, 48, 51, 125, 130, 241, 226, 179, 92, 92, 92, 92, 92, 92, 92, 92, 92, 92, 92, 92, 92, 92, 92, 92, 92, 92, 92, 92, 92, 92, 92, 92, 92, 92, 92, 92, 92, 92, 92, 92, 92, 92, 92, 92, 92, 92, 92, 92, 92, 92, 92, 92, 92, 92, 92, 92, 92, 92, 92, 92, 92, 92] = (2634400316, 2437370271, 3036113104, 1192652808, 2427902477)"
  by (simp add: sha1_eval sha1_init_def)

lemma demo_counter_before: "spec_counter_bytes (spec_counter 1730505749999) = [0, 0, 0, 0, 3, 112, 46, 68]"
  by (simp add: spec_counter_def spec_counter_bytes_def upt_conv_Cons)

lemma demo_inner_block_before: "sha1_compress (3715725260, 1380640354, 3878100862, 144215461, 2792695825) [0, 0, 0, 0, 3, 112, 46, 68, 128, 0, 0, 0, 0, 0, 0, 0, 0, 0, 0, 0, 0, 0, 0, 0, 0, 0, 0, 0, 0, 0, 0, 0, 0, 0, 0, 0, 0, 0, 0, 0, 0, 0, 0, 0, 0, 0, 0, 0, 0, 0, 0, 0, 0, 0, 0, 0, 0, 0, 0, 0, 0, 0, 2, 64] = (2751693248, 2951625046, 4186101349, 314470089, 1667585539)"
  by (simp add: sha1_eval)

lemma demo_outer_block_before: "sha1_compress (2634400316, 2437370271, 3036113104, 1192652808, 2427902477) [164, 3, 129, 192, 175, 238, 57, 86, 249, 130, 214, 101, 18, 190, 110, 201, 99, 101, 86, 3, 128, 0, 0, 0, 0, 0, 0, 0, 0, 0, 0, 0, 0, 0, 0, 0, 0, 0, 0, 0, 0, 0, 0, 0, 0, 0, 0, 0, 0, 0, 0, 0, 0, 0, 0, 0, 0, 0, 0, 0, 0, 0, 2, 160] = (2053955360, 942645978, 1392096674, 2943777999, 1960470762)"
  by (simp add: sha1_eval)

lemma demo_inner_before: "sha1 [126, 83, 90, 90, 89, 23, 232, 155, 136, 217, 54, 54, 54, 54, 54, 54, 54, 54, 54, 54, 54, 54, 54, 54, 54, 54, 54, 54, 54, 54, 54, 54, 54, 54, 54, 54, 54, 54, 54, 54, 54, 54, 54, 54, 54, 54, 54, 54, 54, 54, 54, 54, 54, 54, 54, 54, 54, 54, 54, 54, 54, 54, 54, 54, 0, 0, 0, 0, 3, 112, 46, 68] = [164, 3, 129, 192, 175, 238, 57, 86, 249, 130, 214, 101, 18, 190, 110, 201, 99, 101, 86, 3]"
  by (simp add: sha1_def sha1_pad_def replicate_numeral_Cons chunks64.simps be32_bytes_def demo_ipad
      demo_inner_block_before)

lemma demo_outer_before: "sha1 [20, 57, 48, 48, 51, 125, 130, 241, 226, 179, 92, 92, 92, 92, 92, 92, 92, 92, 92, 92, 92, 92, 92, 92, 92, 92, 92, 92, 92, 92, 92, 92, 92, 92, 92, 92, 92, 92, 92, 92, 92, 92, 92, 92, 92, 92, 92, 92, 92, 92, 92, 92, 92, 92, 92, 92, 92, 92, 92, 92, 92, 92, 92, 92, 164, 3, 129, 192, 175, 238, 57, 86, 249, 130, 214, 101, 18, 190, 110, 201, 99, 101, 86, 3] = [122, 108, 223, 32, 56, 47, 162, 218, 82, 249, 181, 162, 175, 118, 124, 207, 116, 218, 104, 234]"
  by (simp add: sha1_def sha1_pad_def replicate_numeral_Cons chunks64.simps be32_bytes_def demo_opad
      demo_outer_block_before)

lemma demo_digest_before: "hmacSha1 [72, 101, 108, 108, 111, 33, 222, 173, 190, 239] [0, 0, 0, 0, 3, 112, 46, 68] = [122, 108, 223, 32, 56, 47, 162, 218, 82, 249, 181, 162, 175, 118, 124, 207, 116, 218, 104, 234]"
  by (simp add: hmacSha1_def hmac_sha1_def demo_hmac_key demo_inner_before demo_outer_before)

lemma demo_code_before: "totp ''JBSWY3DPEHPK3PXP'' 1730505749999 = ''854198''"
  by (simp add: totp_spec_code spec_code_def demo_key demo_counter_before demo_digest_before
      spec_value_def spec_six_digits_def digit_char_def upt_conv_Cons nat_and_0f nat_and_7f
      push_bit_eq_mult)

lemma demo_counter_after: "spec_counter_bytes (spec_counter 1730505750000) = [0, 0, 0, 0, 3, 112, 46, 69]"
  by (simp add: spec_counter_def spec_counter_bytes_def upt_conv_Cons)

lemma demo_inner_block_after: "sha1_compress (3715725260, 1380640354, 3878100862, 144215461, 2792695825) [0, 0, 0, 0, 3, 112, 46, 69, 128, 0, 0, 0, 0, 0, 0, 0, 0, 0, 0, 0, 0, 0, 0, 0, 0, 0, 0, 0, 0, 0, 0, 0, 0, 0, 0, 0, 0, 0, 0, 0, 0, 0, 0, 0, 0, 0, 0, 0, 0, 0, 0, 0, 0, 0, 0, 0, 0, 0, 0, 0, 0, 0, 2, 64] = (3654138098, 1575706229, 769361264, 363180734, 683507170)"
  by (simp add: sha1_eval)

lemma demo_outer_block_after: "sha1_compress (2634400316, 2437370271, 3036113104, 1192652808, 2427902477) [217, 205, 184, 242, 93, 235, 94, 117, 45, 219, 133, 112, 21, 165, 178, 190, 40, 189, 125, 226, 128, 0, 0, 0, 0, 0, 0, 0, 0, 0, 0, 0, 0, 0, 0, 0, 0, 0, 0, 0, 0, 0, 0, 0, 0, 0, 0, 0, 0, 0, 0, 0, 0, 0, 0, 0, 0, 0, 0, 0, 0, 0, 2, 160] = (2321973949, 890218278, 3434519039, 778891138, 1616943878)"
  by (simp add: sha1_eval)

lemma demo_inner_after: "sha1 [126, 83, 90, 90, 89, 23, 232, 155, 136, 217, 54, 54, 54, 54, 54, 54, 54, 54, 54, 54, 54, 54, 54, 54, 54, 54, 54, 54, 54, 54, 54, 54, 54, 54, 54, 54, 54, 54, 54, 54, 54, 54, 54, 54, 54, 54, 54, 54, 54, 54, 54, 54, 54, 54, 54, 54, 54, 54, 54, 54, 54, 54, 54, 54, 0, 0, 0, 0, 3, 112, 46, 69] = [217, 205, 184, 242, 93, 235, 94, 117, 45, 219, 133, 112, 21, 165, 178, 190, 40, 189, 125, 226]"
  by (simp add: sha1_def sha1_pad_def replicate_numeral_Cons chunks64.simps be32_bytes_def demo_ipad
      demo_inner_block_after)

lemma demo_outer_after: "sha1 [20, 57, 48, 48, 51, 125, 130, 241, 226, 179, 92, 92, 92, 92, 92, 92, 92, 92, 92, 92, 92, 92, 92, 92, 92, 92, 92, 92, 92, 92, 92, 92, 92, 92, 92, 92, 92, 92, 92, 92, 92, 92, 92, 92, 92, 92, 92, 92, 92, 92, 92, 92, 92, 92, 92, 92, 92, 92, 92, 92, 92, 92, 92, 92, 217, 205, 184, 242, 93, 235, 94, 117, 45, 219, 133, 112, 21, 165, 178, 190, 40, 189, 125, 226] = [138, 102, 130, 189, 53, 15, 167, 38, 204, 182, 153, 255, 46, 108, 239, 130, 96, 96, 155, 6]"
  by (simp add: sha1_def sha1_pad_def replicate_numeral_Cons chunks64.simps be32_bytes_def demo_opad
      demo_outer_block_after)

lemma demo_digest_after: "hmacSha1 [72, 101, 108, 108, 111, 33, 222, 173, 190, 239] [0, 0, 0, 0, 3, 112, 46, 69] = [138, 102, 130, 189, 53, 15, 167, 38, 204, 182, 153, 255, 46, 108, 239, 130, 96, 96, 155, 6]"
  by (simp add: hmacSha1_def hmac_sha1_def demo_hmac_key demo_inner_after demo_outer_after)

lemma demo_code_after: "totp ''JBSWY3DPEHPK3PXP'' 1730505750000 = ''854198''"
  by (simp add: totp_spec_code spec_code_def demo_key demo_counter_after demo_digest_after
      spec_value_def spec_six_digits_def digit_char_def upt_conv_Cons nat_and_0f nat_and_7f
      push_bit_eq_mult)

text \<open>
  Claim C8, as stated, fails: the windows 57683524 and 57683525 are adjacent and the
  secret \<open>JBSWY3DPEHPK3PXP\<close> has the code 854198 in both.
\<close>

theorem adjacent_windows_same_code:
  "(1730505749999 :: nat) div 30000 = 57683524
   \<and> (1730505750000 :: nat) div 30000 = 57683525
   \<and> totp ''JBSWY3DPEHPK3PXP'' 1730505749999 = ''854198''
   \<and> totp ''JBSWY3DPEHPK3PXP'' 1730505750000 = ''854198''"
  by (simp add: demo_code_before demo_code_after)

section \<open>Round trip of the Base32 codec\<close>

subsection \<open>Bits read and not yet written\<close>

lemma mod_split: "v mod 2 ^ (m + n) = (v div 2 ^ m mod 2 ^ n) * 2 ^ m + v mod 2 ^ m" for v :: nat
  by (simp add: power_add mod_mult2_eq)

lemma or_low_bits: "y < 2 ^ k \<Longrightarrow> push_bit k p OR y = p * 2 ^ k + y" for p y :: nat
proof -
  assume "y < 2 ^ k"
  then have y: "take_bit k y = y" by (simp add: take_bit_nat_eq_self)
  have "push_bit k p AND take_bit k y = 0"
    by (rule bit_eqI) (auto simp: bit_simps)
  then have "push_bit k p + take_bit k y = push_bit k p OR take_bit k y"
    by (rule disjunctive_add_eq_or)
  then show ?thesis by (simp add: y push_bit_eq_mult)
qed

lemma pending_shift_or:
  fixes v w :: "32 word"
  assumes w: "unat w < 2 ^ k" and le: "b + k \<le> 32"
  shows "pending (b + k) (push_bit k v OR w) = pending b v * 2 ^ k + unat w"
proof -
  have "unat w < 2 ^ (b + k)"
    using w by (rule less_le_trans) simp
  then have low: "take_bit (b + k) (unat w) = unat w"
    by (simp add: take_bit_nat_eq_self)
  have "pending (b + k) (push_bit k v OR w)
      = take_bit (b + k) (push_bit k (unat v)) OR take_bit (b + k) (unat w)"
    using le by (simp add: pending_def unsigned_or_eq unsigned_push_bit_eq min_def)
  also have "\<dots> = push_bit k (take_bit b (unat v)) OR unat w"
    by (simp add: take_bit_push_bit low)
  also have "\<dots> = take_bit b (unat v) * 2 ^ k + unat w"
    using w by (rule or_low_bits)
  finally show ?thesis by (simp add: pending_def)
qed

lemma pending_less: "pending b v < 2 ^ b"
  by (simp add: pending_def)

lemma pending_0: "pending 0 v = 0"
  by (simp add: pending_def)

lemma pending_split:
  "k \<le> b \<Longrightarrow> pending b v = (unat v div 2 ^ (b - k) mod 2 ^ k) * 2 ^ (b - k) + pending (b - k) v"
  using mod_split [of "unat v" "b - k" k] by (simp add: pending_def take_bit_eq_mod)

lemma nat_and_1f: "x AND (0x1f :: nat) = x mod 32"
proof -
  have "(0x1f :: nat) = mask 5" by (simp add: mask_eq_exp_minus_1)
  then have "x AND (0x1f :: nat) = take_bit 5 x" by (simp add: take_bit_eq_mask)
  then show ?thesis by (simp add: take_bit_eq_mod)
qed

lemma nat_and_ff_mod: "x AND (0xff :: nat) = x mod 256"
proof -
  have "(0xff :: nat) = mask 8" by (simp add: mask_eq_exp_minus_1)
  then have "x AND (0xff :: nat) = take_bit 8 x" by (simp add: take_bit_eq_mask)
  then show ?thesis by (simp add: take_bit_eq_mod)
qed

lemma unat_drop_and_1f:
  "unat (drop_bit n (v :: 32 word) AND 0x1f) = unat v div 2 ^ n mod 32"
proof -
  have "unat (drop_bit n v AND 0x1f) = drop_bit n (unat v) AND 0x1f"
    by (simp only: unsigned_and_eq unat_drop_bit_eq) simp
  then show ?thesis by (simp only: nat_and_1f drop_bit_eq_div)
qed

lemma unat_drop_and_ff:
  "unat (ucast (drop_bit n (v :: 32 word) AND 0xff) :: byte) = unat v div 2 ^ n mod 256"
proof -
  have "unat (drop_bit n v AND 0xff) = drop_bit n (unat v) AND 0xff"
    by (simp only: unsigned_and_eq unat_drop_bit_eq) simp
  then have a: "unat (drop_bit n v AND 0xff) = unat v div 2 ^ n mod 256"
    by (simp only: nat_and_ff_mod drop_bit_eq_div)
  have "unat (ucast (drop_bit n v AND 0xff) :: byte) = take_bit 8 (unat (drop_bit n v AND 0xff))"
    by (simp only: unsigned_ucast_eq) simp
  also have "\<dots> = unat v div 2 ^ n mod 256"
    by (simp only: a) (simp add: take_bit_eq_mod)
  finally show ?thesis .
qed

lemma unat_push_and_1f:
  assumes "0 < b" "b < 5"
  shows "unat (push_bit (5 - b) (v :: 32 word) AND 0x1f) = pending b v * 2 ^ (5 - b)"
proof -
  have "unat (push_bit (5 - b) v AND 0x1f) = take_bit 32 (push_bit (5 - b) (unat v)) AND 0x1f"
    by (simp only: unsigned_and_eq unsigned_push_bit_eq) simp
  also have "\<dots> = take_bit 5 (take_bit 32 (push_bit (5 - b) (unat v)))"
    by (simp only: nat_and_1f) (simp add: take_bit_eq_mod)
  also have "\<dots> = take_bit 5 (push_bit (5 - b) (unat v))"
    by simp
  also have "\<dots> = push_bit (5 - b) (take_bit b (unat v))"
    using assms by (simp add: take_bit_push_bit)
  finally show ?thesis by (simp add: pending_def push_bit_eq_mult)
qed

subsection \<open>Digits of the alphabet\<close>

lemma indexOf_from_bounds:
  "ch \<in> set xs \<Longrightarrow> i \<le> indexOf_from xs ch i \<and> indexOf_from xs ch i < i + int (length xs)"
proof (induction xs arbitrary: i)
  case Nil
  then show ?case by simp
next
  case (Cons x xs)
  show ?case
  proof (cases "x = ch")
    case True
    then show ?thesis by simp
  next
    case False
    with Cons.prems have "ch \<in> set xs" by simp
    from Cons.IH [OF this, of "i + 1"] False show ?thesis by simp
  qed
qed

lemma indexOf_from_nth:
  "distinct xs \<Longrightarrow> k < length xs \<Longrightarrow> indexOf_from xs (xs ! k) i = i + int k"
proof (induction xs arbitrary: i k)
  case Nil
  then show ?case by simp
next
  case (Cons x xs)
  show ?case
  proof (cases k)
    case 0
    then show ?thesis by simp
  next
    case (Suc j)
    with Cons.prems have j: "j < length xs" and d: "distinct xs" and "x \<notin> set xs"
      by simp_all
    then have "x \<noteq> xs ! j" by (metis nth_mem)
    with Cons.IH [OF d j, of "i + 1"] Suc show ?thesis by simp
  qed
qed

lemma length_ALPHABET: "length ALPHABET = 32"
  by (simp add: ALPHABET_def)

lemma distinct_ALPHABET: "distinct ALPHABET"
  by (simp add: ALPHABET_def)

lemma b32_digit_less: "c \<in> set ALPHABET \<Longrightarrow> b32_digit c < 32"
  using indexOf_from_bounds [of c ALPHABET 0]
  by (auto simp: b32_digit_def indexOf_def length_ALPHABET)

lemma indexOf_digit: "c \<in> set ALPHABET \<Longrightarrow> indexOf ALPHABET c = int (b32_digit c)"
  using indexOf_from_bounds [of c ALPHABET 0]
  by (auto simp: b32_digit_def indexOf_def)

lemma b32_digit_nth: "i < 32 \<Longrightarrow> b32_digit (ALPHABET ! i) = i"
  using indexOf_from_nth [OF distinct_ALPHABET, of i 0]
  by (auto simp: b32_digit_def indexOf_def length_ALPHABET)

lemma ALPHABET_nth_mem: "i < 32 \<Longrightarrow> ALPHABET ! i \<in> set ALPHABET"
  by (simp add: length_ALPHABET)

lemma unat_digit_word:
  "c \<in> set ALPHABET \<Longrightarrow> unat (word_of_int (indexOf ALPHABET c) :: 32 word) = b32_digit c"
proof -
  assume c: "c \<in> set ALPHABET"
  have "b32_digit c < 2 ^ 32"
    using b32_digit_less [OF c] by simp
  then show ?thesis
    by (simp add: indexOf_digit [OF c] unat_of_nat)
qed

subsection \<open>The decoder loop\<close>

lemma b32_acc_Cons: "b32_acc n (c # cs) = b32_acc (n * 32 + b32_digit c) cs"
  by (simp add: b32_acc_def)

lemma b32_acc_snoc: "b32_acc n (cs @ [c]) = b32_acc n cs * 32 + b32_digit c"
  by (simp add: b32_acc_def)

lemma be_acc_Cons: "be_acc n (b # bs) = be_acc (n * 256 + unat b) bs"
  by (simp add: be_acc_def)

lemma be_acc_snoc: "be_acc n (bs @ [b]) = be_acc n bs * 256 + unat b"
  by (simp add: be_acc_def)

lemma decode_step_pending:
  assumes c: "c \<in> set ALPHABET" and b: "bits < 8"
  shows "pending (bits + 5) (push_bit 5 val OR word_of_int (indexOf ALPHABET c))
         = pending bits val * 32 + b32_digit c"
proof -
  have "unat (word_of_int (indexOf ALPHABET c) :: 32 word) < 2 ^ 5"
    using b32_digit_less [OF c] by (simp add: unat_digit_word [OF c])
  from pending_shift_or [OF this, of bits val] b show ?thesis
    by (simp add: unat_digit_word [OF c])
qed

lemma decode_loop_inv:
  assumes "set cs \<subseteq> set ALPHABET" and "bits < 8"
  shows "\<exists>p < 2 ^ ((bits + 5 * length cs) mod 8).
           be_acc 0 (decode_loop cs bits val out) * 2 ^ ((bits + 5 * length cs) mod 8) + p
             = b32_acc (be_acc 0 out * 2 ^ bits + pending bits val) cs
           \<and> length (decode_loop cs bits val out) = length out + (bits + 5 * length cs) div 8"
  using assms
proof (induction cs arbitrary: bits val out)
  case Nil
  then show ?case
    by (auto simp: b32_acc_def pending_less intro!: exI [of _ "pending bits val"])
next
  case (Cons c cs)
  then have c: "c \<in> set ALPHABET" and cs: "set cs \<subseteq> set ALPHABET" and b: "bits < 8"
    by simp_all
  define val' where "val' = push_bit 5 val OR word_of_int (indexOf ALPHABET c)"
  have idx: "indexOf ALPHABET c \<noteq> - 1"
    using c by (simp add: indexOf_absent)
  have pend: "pending (bits + 5) val' = pending bits val * 32 + b32_digit c"
    unfolding val'_def by (rule decode_step_pending [OF c b])
  show ?case
  proof (cases "bits + 5 \<ge> 8")
    case True
    define byte where "byte = (ucast (drop_bit (bits + 5 - 8) val' AND 0xff) :: byte)"
    define r where "r = bits + 5 - 8"
    have r: "bits + 5 = 8 + r" "r < 8"
      using True b by (simp_all add: r_def)
    have loop: "decode_loop (c # cs) bits val out = decode_loop cs r val' (out @ [byte])"
      using idx True by (simp add: Let_def val'_def byte_def r_def)
    have split: "pending (bits + 5) val' = unat byte * 2 ^ r + pending r val'"
      using pending_split [of 8 "bits + 5" val'] True
      by (simp add: byte_def unat_drop_and_ff r_def)
    have num: "be_acc 0 (out @ [byte]) * 2 ^ r + pending r val'
        = (be_acc 0 out * 2 ^ bits + pending bits val) * 32 + b32_digit c"
    proof -
      have "be_acc 0 (out @ [byte]) * 2 ^ r + pending r val'
          = be_acc 0 out * 2 ^ (8 + r) + pending (bits + 5) val'"
        by (simp add: be_acc_snoc split power_add algebra_simps)
      also have "\<dots> = be_acc 0 out * 2 ^ (bits + 5) + pending (bits + 5) val'"
        by (simp only: r(1))
      finally show ?thesis by (simp add: pend power_add algebra_simps)
    qed
    have e1: "(r + 5 * length cs) mod 8 = (bits + 5 * length (c # cs)) mod 8"
    proof -
      have "bits + 5 * length (c # cs) = 8 + (r + 5 * length cs)"
        using r(1) by simp
      then show ?thesis by simp
    qed
    have e2: "length (out @ [byte]) + (r + 5 * length cs) div 8
        = length out + (bits + 5 * length (c # cs)) div 8"
    proof -
      have "bits + 5 * length (c # cs) = 8 + (r + 5 * length cs)"
        using r(1) by simp
      then show ?thesis by simp
    qed
    from Cons.IH [OF cs r(2), of val' "out @ [byte]"]
    show ?thesis
      unfolding loop num e1 e2 b32_acc_Cons .
  next
    case False
    have loop: "decode_loop (c # cs) bits val out = decode_loop cs (bits + 5) val' out"
      using idx False by (simp add: Let_def val'_def)
    have b': "bits + 5 < 8" using False by simp
    have num: "be_acc 0 out * 2 ^ (bits + 5) + pending (bits + 5) val'
        = (be_acc 0 out * 2 ^ bits + pending bits val) * 32 + b32_digit c"
      by (simp add: pend power_add algebra_simps)
    have e1: "(bits + 5 + 5 * length cs) mod 8 = (bits + 5 * length (c # cs)) mod 8"
      by (simp add: add.assoc)
    have e2: "length out + (bits + 5 + 5 * length cs) div 8
        = length out + (bits + 5 * length (c # cs)) div 8"
      by (simp add: add.assoc)
    from Cons.IH [OF cs b', of val' out]
    show ?thesis
      unfolding loop num e1 e2 b32_acc_Cons .
  qed
qed

subsection \<open>The encoder loops\<close>

lemma emit_inv:
  "fst (emit bits val result) = bits mod 5
   \<and> b32_acc 0 (snd (emit bits val result)) * 2 ^ (bits mod 5) + pending (bits mod 5) val
       = b32_acc 0 result * 2 ^ bits + pending bits val
   \<and> length (snd (emit bits val result)) = length result + bits div 5
   \<and> set (snd (emit bits val result)) \<subseteq> set result \<union> set ALPHABET"
proof (induction bits val result rule: emit.induct)
  case (1 bits val result)
  show ?case
  proof (cases "bits \<ge> 5")
    case False
    then show ?thesis by (simp add: emit.simps [of bits])
  next
    case True
    define i where "i = unat (drop_bit (bits - 5) val AND 0x1f)"
    define r where "r = bits - 5"
    have r: "bits = 5 + r" using True by (simp add: r_def)
    have i: "i = unat val div 2 ^ r mod 32"
      by (simp add: i_def unat_drop_and_1f r_def)
    then have i32: "i < 32" by simp
    have unfold: "emit bits val result = emit r val (result @ [ALPHABET ! i])"
      using True by (simp add: emit.simps [of bits] i_def r_def)
    have split: "pending bits val = i * 2 ^ r + pending r val"
      using pending_split [of 5 bits val] True by (simp add: i r_def)
    have num: "b32_acc 0 (result @ [ALPHABET ! i]) * 2 ^ r + pending r val
        = b32_acc 0 result * 2 ^ bits + pending bits val"
    proof -
      have "b32_acc 0 (result @ [ALPHABET ! i]) * 2 ^ r + pending r val
          = (b32_acc 0 result * 32 + i) * 2 ^ r + pending r val"
        by (simp add: b32_acc_snoc b32_digit_nth [OF i32])
      also have "\<dots> = b32_acc 0 result * 2 ^ (5 + r) + (i * 2 ^ r + pending r val)"
        by (simp add: power_add algebra_simps)
      also have "\<dots> = b32_acc 0 result * 2 ^ bits + pending bits val"
        by (simp only: split r [symmetric])
      finally show ?thesis .
    qed
    have m: "r mod 5 = bits mod 5" and d: "Suc (r div 5) = bits div 5"
      by (simp_all add: r)
    from "1.IH" [OF True] have IH:
      "fst (emit r val (result @ [ALPHABET ! i])) = r mod 5
       \<and> b32_acc 0 (snd (emit r val (result @ [ALPHABET ! i]))) * 2 ^ (r mod 5)
           + pending (r mod 5) val
           = b32_acc 0 (result @ [ALPHABET ! i]) * 2 ^ r + pending r val
       \<and> length (snd (emit r val (result @ [ALPHABET ! i])))
           = length (result @ [ALPHABET ! i]) + r div 5
       \<and> set (snd (emit r val (result @ [ALPHABET ! i])))
           \<subseteq> set (result @ [ALPHABET ! i]) \<union> set ALPHABET"
      by (simp only: i_def r_def)
    have mem: "ALPHABET ! i \<in> set ALPHABET"
      by (rule ALPHABET_nth_mem [OF i32])
    from IH mem show ?thesis
      unfolding unfold num m by (auto simp: d [symmetric])
  qed
qed

lemma encode_step_pending:
  assumes "bits < 5"
  shows "pending (bits + 8) (push_bit 8 val OR ucast (b :: byte)) = pending bits val * 256 + unat b"
proof -
  have u: "unat (ucast b :: 32 word) = unat b"
    by (rule unat_ucast_byte)
  have "unat (ucast b :: 32 word) < 2 ^ 8"
    using unat_byte_lt [of b] by (simp add: u)
  from pending_shift_or [OF this, of bits val] assms show ?thesis
    by (simp add: u)
qed

lemma encode_loop_inv:
  assumes "bits < 5" and "encode_loop raw bits val result = (bits', val', result')"
  shows "bits' = (bits + 8 * length raw) mod 5
   \<and> b32_acc 0 result' * 2 ^ bits' + pending bits' val'
       = be_acc (b32_acc 0 result * 2 ^ bits + pending bits val) raw
   \<and> length result' = length result + (bits + 8 * length raw) div 5
   \<and> set result' \<subseteq> set result \<union> set ALPHABET"
  using assms
proof (induction raw arbitrary: bits val result)
  case Nil
  then show ?case by (simp add: be_acc_def)
next
  case (Cons b raw)
  define v1 where "v1 = push_bit 8 val OR ucast b"
  define b1 where "b1 = fst (emit (bits + 8) v1 result)"
  define r1 where "r1 = snd (emit (bits + 8) v1 result)"
  have em: "emit (bits + 8) v1 result = (b1, r1)"
    by (simp add: b1_def r1_def)
  from emit_inv [of "bits + 8" v1 result]
  have b1: "b1 = (bits + 8) mod 5"
    and n1: "b32_acc 0 r1 * 2 ^ b1 + pending b1 v1
        = b32_acc 0 result * 2 ^ (bits + 8) + pending (bits + 8) v1"
    and l1: "length r1 = length result + (bits + 8) div 5"
    and s1: "set r1 \<subseteq> set result \<union> set ALPHABET"
    by (simp_all add: b1_def r1_def)
  have b1_lt: "b1 < 5" by (simp add: b1)
  have loop: "encode_loop raw b1 v1 r1 = (bits', val', result')"
    using Cons.prems(2) by (simp add: Let_def v1_def [symmetric] em)
  have num: "b32_acc 0 r1 * 2 ^ b1 + pending b1 v1
      = (b32_acc 0 result * 2 ^ bits + pending bits val) * 256 + unat b"
  proof -
    have "pending (bits + 8) v1 = pending bits val * 256 + unat b"
      unfolding v1_def by (rule encode_step_pending [OF Cons.prems(1)])
    then have "b32_acc 0 r1 * 2 ^ b1 + pending b1 v1
        = b32_acc 0 result * 2 ^ (bits + 8) + (pending bits val * 256 + unat b)"
      by (simp only: n1)
    then show ?thesis by (simp add: power_add algebra_simps)
  qed
  have e1: "(b1 + 8 * length raw) mod 5 = (bits + 8 * length (b # raw)) mod 5"
  proof -
    have "((bits + 8) mod 5 + 8 * length raw) mod 5 = (bits + 8 + 8 * length raw) mod 5"
      by (rule mod_add_left_eq)
    also have "bits + 8 + 8 * length raw = bits + 8 * length (b # raw)"
      by simp
    finally show ?thesis by (simp only: b1)
  qed
  have e2: "(bits + 8) div 5 + (b1 + 8 * length raw) div 5 = (bits + 8 * length (b # raw)) div 5"
    unfolding b1 by simp presburger
  from Cons.IH [OF b1_lt loop] s1 show ?case
    unfolding num e1 l1 be_acc_Cons using e2 by auto
qed

subsection \<open>Padding and upper-casing of an encoded string\<close>

lemma pad8_shape:
  "\<exists>k. pad8 r = r @ replicate k CHR ''='' \<and> length (pad8 r) mod 8 = 0"
proof (induction r rule: pad8.induct)
  case (1 r)
  show ?case
  proof (cases "length r mod 8 \<noteq> 0")
    case False
    then have "pad8 r = r" by (simp add: pad8.simps [of r])
    with False show ?thesis by (intro exI [of _ 0]) simp
  next
    case True
    have "\<exists>k. pad8 (r @ ''='') = (r @ ''='') @ replicate k CHR ''=''
        \<and> length (pad8 (r @ ''='')) mod 8 = 0"
      by (rule "1.IH" [OF True])
    then obtain k
      where k: "pad8 (r @ ''='') = (r @ ''='') @ replicate k CHR ''=''"
        and m: "length (pad8 (r @ ''='')) mod 8 = 0"
      by (elim exE conjE)
    have unfold: "pad8 r = pad8 (r @ ''='')"
      using True by (simp add: pad8.simps [of r])
    have "pad8 r = r @ replicate (Suc k) CHR ''=''"
      by (simp add: unfold k)
    with m unfold show ?thesis by (intro exI [of _ "Suc k"]) simp
  qed
qed

lemma toUpperCase_char_digits:
  "list_all (\<lambda>c. toUpperCase_char c = [c]) (CHR ''='' # ALPHABET)"
  by (simp add: ALPHABET_def toUpperCase_char_def lower_letters_def upper_letters_def)

lemma toUpperCase_encoded:
  "set s \<subseteq> set ALPHABET \<union> {CHR ''=''} \<Longrightarrow> toUpperCase s = s"
proof (induction s)
  case Nil
  then show ?case by (simp add: toUpperCase_def)
next
  case (Cons c s)
  then have "c \<in> set (CHR ''='' # ALPHABET)" by auto
  with toUpperCase_char_digits have "toUpperCase_char c = [c]"
    by (simp only: list_all_iff)
  with Cons show ?case by (simp add: toUpperCase_def)
qed

lemma base32Decode_encoded:
  assumes "set r \<subseteq> set ALPHABET"
  shows "base32Decode (r @ replicate k CHR ''='') = decode_loop r 0 0 []"
proof -
  have up: "toUpperCase (r @ replicate k CHR ''='') = r @ replicate k CHR ''=''"
    using assms by (intro toUpperCase_encoded) auto
  have "filter (\<lambda>c. c \<in> set ALPHABET) r = r"
    using assms by (simp add: filter_id_conv subset_iff)
  moreover have "filter (\<lambda>c. c \<in> set ALPHABET) (replicate k CHR ''='') = []"
    by (simp add: eq_not_in_ALPHABET)
  ultimately show ?thesis
    by (simp add: base32Decode_filter up)
qed

subsection \<open>Bytes are determined by their number and their count\<close>

lemma be_acc_inj:
  "length xs = length ys \<Longrightarrow> be_acc a xs = be_acc b ys \<Longrightarrow> a = b \<and> xs = ys"
proof (induction xs ys arbitrary: a b rule: list_induct2)
  case Nil
  then show ?case by (simp add: be_acc_def)
next
  case (Cons x xs y ys)
  from Cons.prems have "be_acc (a * 256 + unat x) xs = be_acc (b * 256 + unat y) ys"
    by (simp add: be_acc_Cons)
  from Cons.IH [OF this] have eq: "a * 256 + unat x = b * 256 + unat y" and tl: "xs = ys"
    by simp_all
  have x: "unat x < 256" and y: "unat y < 256"
    by (rule unat_byte_lt)+
  from eq have "(a * 256 + unat x) div 256 = (b * 256 + unat y) div 256"
    and "(a * 256 + unat x) mod 256 = (b * 256 + unat y) mod 256"
    by simp_all
  with x y have "a = b" and "unat x = unat y" by simp_all
  then show ?case using tl by (simp add: word_unat_eq_iff)
qed

subsection \<open>What the encoder returns\<close>

lemma generateSecret_shape:
  "\<exists>r k q. generateSecret raw = r @ replicate k CHR ''=''
     \<and> set r \<subseteq> set ALPHABET
     \<and> length (generateSecret raw) mod 8 = 0
     \<and> q < 5 \<and> 5 * length r = 8 * length raw + q
     \<and> b32_acc 0 r = be_acc 0 raw * 2 ^ q"
proof -
  obtain bits val result where loop: "encode_loop raw 0 0 [] = (bits, val, result)"
    by (cases "encode_loop raw 0 0 []") auto
  have init: "b32_acc 0 [] = 0"
    by (simp add: b32_acc_def)
  have inv: "bits = (8 * length raw) mod 5
      \<and> b32_acc 0 result * 2 ^ bits + pending bits val = be_acc 0 raw
      \<and> length result = (8 * length raw) div 5
      \<and> set result \<subseteq> set ALPHABET"
    using encode_loop_inv [of 0 raw 0 "[]" bits val result, OF _ loop]
    by (auto simp: init pending_0)
  note bits = inv [THEN conjunct1]
    and num = inv [THEN conjunct2, THEN conjunct1]
    and len = inv [THEN conjunct2, THEN conjunct2, THEN conjunct1]
    and chars = inv [THEN conjunct2, THEN conjunct2, THEN conjunct2]
  have bits5: "bits < 5" by (simp add: bits)
  have total: "5 * length result + bits = 8 * length raw"
    unfolding bits len by simp
  define r where "r = (if bits > 0
      then result @ [ALPHABET ! unat (push_bit (5 - bits) val AND 0x1f)] else result)"
  define q where "q = (if bits > 0 then 5 - bits else 0)"
  have gen: "generateSecret raw = pad8 r"
    by (simp add: generateSecret_def loop r_def)
  have props: "set r \<subseteq> set ALPHABET \<and> q < 5 \<and> 5 * length r = 8 * length raw + q
      \<and> b32_acc 0 r = be_acc 0 raw * 2 ^ q"
  proof (cases "bits > 0")
    case False
    with num chars total show ?thesis
      by (simp add: r_def q_def pending_0)
  next
    case True
    define j where "j = unat (push_bit (5 - bits) val AND 0x1f)"
    have j: "j = pending bits val * 2 ^ (5 - bits)"
      unfolding j_def by (rule unat_push_and_1f [OF True bits5])
    have "pending bits val * 2 ^ (5 - bits) < 2 ^ bits * 2 ^ (5 - bits)"
      by (rule mult_strict_right_mono) (simp_all add: pending_less)
    also have "(2 :: nat) ^ bits * 2 ^ (5 - bits) = 2 ^ 5"
      using bits5 by (simp add: power_add [symmetric])
    finally have j32: "j < 32" by (simp add: j)
    have r: "r = result @ [ALPHABET ! j]"
      using True by (simp add: r_def j_def)
    have "b32_acc 0 r = b32_acc 0 result * 32 + j"
      by (simp add: r b32_acc_snoc b32_digit_nth [OF j32])
    also have "\<dots> = b32_acc 0 result * (2 ^ bits * 2 ^ (5 - bits)) + pending bits val * 2 ^ (5 - bits)"
      using bits5 by (simp add: j power_add [symmetric])
    also have "\<dots> = (b32_acc 0 result * 2 ^ bits + pending bits val) * 2 ^ (5 - bits)"
      by (simp add: algebra_simps)
    finally have n: "b32_acc 0 r = be_acc 0 raw * 2 ^ q"
      using True by (simp add: num q_def)
    have "set r \<subseteq> set ALPHABET"
      using chars ALPHABET_nth_mem [OF j32] by (simp add: r)
    moreover have "q < 5" using True by (simp add: q_def)
    moreover have "5 * length r = 8 * length raw + q"
      using total True bits5 by (simp add: r q_def)
    ultimately show ?thesis using n by simp
  qed
  from pad8_shape [of r] obtain k
    where k: "pad8 r = r @ replicate k CHR ''=''" and m: "length (pad8 r) mod 8 = 0"
    by (elim exE conjE)
  have "generateSecret raw = r @ replicate k CHR ''=''
     \<and> set r \<subseteq> set ALPHABET
     \<and> length (generateSecret raw) mod 8 = 0
     \<and> q < 5 \<and> 5 * length r = 8 * length raw + q
     \<and> b32_acc 0 r = be_acc 0 raw * 2 ^ q"
    using props m by (simp only: gen k [symmetric])
  then show ?thesis
    by (intro exI)
qed

lemma decode_generateSecret: "base32Decode (generateSecret raw) = raw"
proof -
  from generateSecret_shape [of raw] obtain r k q
    where gen: "generateSecret raw = r @ replicate k CHR ''=''"
      and chars: "set r \<subseteq> set ALPHABET"
      and q: "q < 5" and len: "5 * length r = 8 * length raw + q"
      and num: "b32_acc 0 r = be_acc 0 raw * 2 ^ q"
    by (elim exE conjE)
  define out where "out = decode_loop r 0 0 []"
  have dec: "base32Decode (generateSecret raw) = out"
    unfolding gen out_def by (rule base32Decode_encoded [OF chars])
  have m: "(5 * length r) mod 8 = q" and d: "(5 * length r) div 8 = length raw"
    using q by (simp_all add: len)
  from decode_loop_inv [OF chars, of 0 0 "[]"] obtain p
    where p: "p < 2 ^ q" and eq: "be_acc 0 out * 2 ^ q + p = b32_acc 0 r"
      and l: "length out = length raw"
    by (auto simp: out_def m d be_acc_def pending_0)
  from eq num have "(be_acc 0 out * 2 ^ q + p) div 2 ^ q = (be_acc 0 raw * 2 ^ q) div 2 ^ q"
    by simp
  with p have "be_acc 0 out = be_acc 0 raw" by simp
  from be_acc_inj [OF l this] dec show ?thesis by simp
qed

subsection \<open>The round trip\<close>

lemma pad8_aligned: "length r mod 8 = 0 \<Longrightarrow> pad8 r = r"
  by (simp add: pad8.simps [of r])

lemma generateSecret_20:
  assumes "length raw = 20"
  shows "length (generateSecret raw) = 32 \<and> set (generateSecret raw) \<subseteq> set ALPHABET"
proof -
  obtain bits val result where loop: "encode_loop raw 0 0 [] = (bits, val, result)"
    by (cases "encode_loop raw 0 0 []") auto
  have init: "b32_acc 0 [] = 0"
    by (simp add: b32_acc_def)
  have inv: "bits = 0 \<and> length result = 32 \<and> set result \<subseteq> set ALPHABET"
    using encode_loop_inv [of 0 raw 0 "[]" bits val result, OF _ loop] assms
    by (auto simp: init pending_0)
  then have "generateSecret raw = pad8 result"
    by (simp add: generateSecret_def loop)
  also have "\<dots> = result"
    using inv by (intro pad8_aligned) simp
  finally show ?thesis using inv by simp
qed

text \<open>
  Claim C3. Decoding what the encoder returns gives back the bytes, for every list of
  bytes; the encoder returns Base32 digits followed by \<open>=\<close> signs, and the length of what
  it returns is a multiple of 8.
\<close>

theorem base32_round_trip:
  "base32Decode (generateSecret b) = b
   \<and> length (generateSecret b) mod 8 = 0
   \<and> (\<exists>r k. generateSecret b = r @ replicate k CHR ''='' \<and> set r \<subseteq> set ALPHABET)"
proof -
  from generateSecret_shape [of b] obtain r k q
    where "generateSecret b = r @ replicate k CHR ''=''"
      and "set r \<subseteq> set ALPHABET"
      and "length (generateSecret b) mod 8 = 0"
    by (elim exE conjE)
  then have "length (generateSecret b) mod 8 = 0
      \<and> (\<exists>r k. generateSecret b = r @ replicate k CHR ''='' \<and> set r \<subseteq> set ALPHABET)"
    by (intro conjI exI [of _ r] exI [of _ k])
  then show ?thesis
    by (simp only: decode_generateSecret)
qed

text \<open>
  Claim C9. For the 20 random bytes that \<open>generateSecret\<close> draws, whatever they are: the
  string returned has 32 characters, a multiple of 8, all of them Base32 digits (no
  padding is needed), and \<open>base32Decode\<close> of it returns the 20 bytes.
\<close>

theorem generateSecret_encodes_20_bytes:
  "length raw = 20 \<Longrightarrow>
     length (generateSecret raw) = 32
   \<and> length (generateSecret raw) mod 8 = 0
   \<and> set (generateSecret raw) \<subseteq> set ALPHABET
   \<and> base32Decode (generateSecret raw) = raw"
  using generateSecret_20 [of raw] by (simp add: decode_generateSecret)

theorem generateSecret_encodes_20_bytes_witness:
  "length [49, 50, 51, 52, 53, 54, 55, 56, 57, 48, 49, 50, 51, 52, 53, 54, 55, 56, 57, 48 :: byte] = 20
   \<and> length (generateSecret
        [49, 50, 51, 52, 53, 54, 55, 56, 57, 48, 49, 50, 51, 52, 53, 54, 55, 56, 57, 48]) = 32
   \<and> base32Decode (generateSecret
        [49, 50, 51, 52, 53, 54, 55, 56, 57, 48, 49, 50, 51, 52, 53, 54, 55, 56, 57, 48])
       = [49, 50, 51, 52, 53, 54, 55, 56, 57, 48, 49, 50, 51, 52, 53, 54, 55, 56, 57, 48]"
  using generateSecret_encodes_20_bytes
    [of "[49, 50, 51, 52, 53, 54, 55, 56, 57, 48, 49, 50, 51, 52, 53, 54, 55, 56, 57, 48]"]
  by simp

lemma generateSecret_rfc_example:
  "generateSecret [49, 50, 51, 52, 53, 54, 55, 56, 57, 48]
   = ''GEZDGNBVGY3TQOJQ''"
  by (simp add: generateSecret_def emit.simps pad8.simps ALPHABET_def Let_def)

section \<open>Properties of the receive session\<close>

lemma step_Data_received: "received s \<Longrightarrow> step w s (Data c p) = s"
  by (simp add: step_def on_data_def)

lemma discard_unchanged:
  "raw = None \<or> (\<exists>msg. raw = Some msg \<and> msg \<noteq> JNull \<and> \<not> is_share_msg msg) \<Longrightarrow>
   on_data w s c raw = s"
  by (auto simp: on_data_def split: json.splits)

lemmas session_eval =
  run_def step_def on_data_def on_grace_def on_timeout_def on_destroyed_def receive_init_def
  is_share_def is_share_msg_def PROTO_VER_def save_vault_def secret_is_string_def
  example_share_def example_vault_def vaultless_share_def

text \<open>
  Claim C2. The claim fails on two sessions. In the first a peer sends \<open>null\<close> and then a
  peer sends the share message: the \<open>null\<close> ends the session with an uncaught \<open>TypeError\<close>
  (the defect of claim C6), so the first valid share message never sets the latch. In
  the second a peer sends a message with the right \<open>type\<close> and \<open>v\<close> and no vault: it passes
  the handler's check and sets the latch, the handler then fails on \<open>vault.name\<close>, and the
  valid share message that follows is not accepted either; nothing is written.
\<close>

theorem first_share_not_latched:
  "\<not> is_share (Some JNull)
   \<and> is_share (Some example_share)
   \<and> run w [Data 1 (Some JNull), Data 2 (Some example_share)] receive_init
       = receive_init\<lparr>outcome := Some (Uncaught TypeError)\<rparr>
   \<and> run w [Data 1 (Some vaultless_share), Data 2 (Some example_share)] receive_init
       = receive_init\<lparr>received := True, trace := [SetReceived],
           outcome := Some (Uncaught TypeError)\<rparr>"
  by (simp add: session_eval)

text \<open>
  Claim C6. The payload \<open>null\<close> parses as JSON and is no share message (it has no \<open>type\<close>
  and no \<open>v\<close>), yet it is not ignored: \<open>msg.type\<close> throws outside the \<open>try\<close>, and the
  session ends with an uncaught \<open>TypeError\<close> instead of waiting on. Every other payload
  that fails to parse or fails the check leaves the session unchanged
  (\<open>discard_unchanged\<close>).
\<close>

theorem null_payload_ends_session:
  "\<not> is_share (Some JNull)
   \<and> step w receive_init (Data c (Some JNull)) = receive_init\<lparr>outcome := Some (Uncaught TypeError)\<rparr>
   \<and> step w receive_init (Data c (Some JNull)) \<noteq> receive_init"
  by (simp add: step_def on_data_def receive_init_def is_share_def is_share_msg_def)

text \<open>
  Claim C7. The claim fails on the session in which the timer fires before any share
  message, and the share message of the README's vault arrives while \<open>swarm.destroy()\<close>
  is still running: the handler sets the latch, writes the vault and acknowledges, and
  then the timer's continuation exits with code 1. The session has accepted a vault and
  ends with the non-success code, and \<open>process.exit(1)\<close> runs after the latch was set.
\<close>

theorem share_during_teardown_exits_1:
  "run (\<lambda>name. None) [Timeout60, Data 1 (Some example_share), Destroyed 1] receive_init
   = \<lparr>received = True, waiting = True, timer_done = True, exit_pending = [1],
      trace = [SwarmDestroy, SetReceived, WriteFile ''myteam'' example_vault, SendAck 1,
               ProcessExit 1],
      outcome = Some (Exit 1)\<rparr>"
  by (simp add: session_eval)

end
